theory Spec2Isabelle
  imports Main "HOL-Library.Sublist" "HOL-Library.Multiset"
begin

section \<open>Strings\<close>

text \<open>
  A Go string is a sequence of bytes; it is modelled as a \<open>char list\<close>.
  \<open>strings.Index s sub\<close> is the position of the first occurrence of \<open>sub\<close> in
  \<open>s\<close>; the result \<open>-1\<close> of the library is \<open>None\<close> here.
\<close>

fun strings_Index :: "string \<Rightarrow> string \<Rightarrow> nat option" where
  "strings_Index [] sub = (if sub = [] then Some 0 else None)"
| "strings_Index (c # cs) sub =
     (if prefix sub (c # cs) then Some 0 else map_option Suc (strings_Index cs sub))"

definition strings_Contains :: "string \<Rightarrow> string \<Rightarrow> bool" where
  "strings_Contains s sub = (strings_Index s sub \<noteq> None)"

text \<open>\<open>strings.TrimPrefix\<close>: the string without the prefix, when it starts with it.\<close>

definition strings_TrimPrefix :: "string \<Rightarrow> string \<Rightarrow> string" where
  "strings_TrimPrefix s p = (if prefix p s then drop (length p) s else s)"

text \<open>
  \<open>strings.Split s [sep]\<close> for a separator of one byte: the pieces between the
  occurrences of the separator, one more piece than there are occurrences.
\<close>

fun strings_Split :: "string \<Rightarrow> char \<Rightarrow> string list" where
  "strings_Split [] sep = [[]]"
| "strings_Split (c # cs) sep =
     (if c = sep then [] # strings_Split cs sep
      else (case strings_Split cs sep of p # ps \<Rightarrow> (c # p) # ps | [] \<Rightarrow> [[c]]))"

section \<open>The pattern of untrusted context fields\<close>

text \<open>
  The syntax of the regular expressions that the source compiles: literal text, the
  wildcard \<open>.*\<close> (any run of bytes other than a newline; the expression is compiled
  without the flag that lets a dot match a newline), concatenation and alternation.
\<close>

datatype rexp =
    Lit string
  | DotStar
  | Seq rexp rexp
  | Alt rexp rexp

abbreviation newline :: char where
  "newline \<equiv> CHR 0x0A"

text \<open>The rests of \<open>s\<close> after a run of bytes that \<open>.*\<close> can take, the shortest run first.\<close>

fun dotstar :: "string \<Rightarrow> string list" where
  "dotstar [] = [[]]"
| "dotstar (c # cs) = (c # cs) # (if c = newline then [] else dotstar cs)"

text \<open>
  \<open>rmatch r s\<close> lists every rest of \<open>s\<close> that remains after a prefix of \<open>s\<close>
  matched \<open>r\<close>.
\<close>

fun rmatch :: "rexp \<Rightarrow> string \<Rightarrow> string list" where
  "rmatch (Lit w) s = (if prefix w s then [drop (length w) s] else [])"
| "rmatch DotStar s = dotstar s"
| "rmatch (Seq a b) s = concat (map (rmatch b) (rmatch a s))"
| "rmatch (Alt a b) s = rmatch a s @ rmatch b s"

text \<open>
  \<open>Regexp.MatchString\<close> is not anchored: it reports whether the pattern matches
  some substring of the text.
\<close>

definition MatchString :: "rexp \<Rightarrow> string \<Rightarrow> bool" where
  "MatchString r s = list_ex (\<lambda>t. rmatch r t \<noteq> []) (suffixes s)"

fun alts :: "rexp \<Rightarrow> rexp list \<Rightarrow> rexp" where
  "alts r [] = r"
| "alts r (x # xs) = Alt r (alts x xs)"

definition untrustedContextPattern :: rexp where
  "untrustedContextPattern =
     Seq DotStar (Seq
       (alts (Lit ''issue.title'')
         [Lit ''issue.body'',
          Lit ''pull_request.title'',
          Lit ''pull_request.body'',
          Lit ''comment.body'',
          Lit ''review.body'',
          Lit ''review_comment.body'',
          Seq (Lit ''pages'') (Seq DotStar (Lit ''.page_name'')),
          Seq (Lit ''commits'') (Seq DotStar (Lit ''.message'')),
          Lit ''head_commit.message'',
          Lit ''head_commit.author.email'',
          Lit ''head_commit.author.name'',
          Seq (Lit ''commits'') (Seq DotStar (Lit ''.author.email'')),
          Seq (Lit ''commits'') (Seq DotStar (Lit ''.author.name'')),
          Lit ''pull_request.head.ref'',
          Lit ''pull_request.head.label'',
          Lit ''pull_request.head.repo.default_branch''])
       DotStar)"

definition containsUntrustedContextPattern :: "string \<Rightarrow> bool" where
  "containsUntrustedContextPattern variable =
     (if strings_Contains variable ''github.head_ref'' then True
      else strings_Contains variable ''github.event.''
           \<and> MatchString untrustedContextPattern variable)"

section \<open>The workflow document\<close>

text \<open>
  The parsed workflow comes from the parser library; its types are modelled with the
  optionality the source tests for. A Go pointer that the code compares with \<open>nil\<close>
  (a job, a step, \<open>Uses\<close>, \<open>Run\<close>, the value of an input, the name and the
  identifier of a job, a position) is an \<open>option\<close>, and so is the interface value
  \<open>Exec\<close> of a step, which is nil or holds an action reference or an inline script.
  The workflow itself, the input stored under a key and the pointer inside a non-nil
  \<open>Exec\<close> are taken as present, as the source takes them.

  An event of \<open>On\<close> is represented by the name that its method \<open>EventName\<close>
  returns. \<open>Jobs\<close> is a Go map and \<open>range\<close> visits its values in an order that
  the language leaves open: for one loop over the map, the list \<open>Jobs\<close> holds the
  values in the order in which that loop visits them. Another loop over the same map
  may visit them in another order; where the source ranges over the map more than
  once, in \<open>Validate\<close>, each loop has its own order.
\<close>

type_synonym Pos = "nat \<times> nat"

record StringT =
  Value :: string
  StrPos :: "Pos option"

record Input =
  InputName :: "StringT option"
  InputValue :: "StringT option"

datatype Exec =
    ExecAction "StringT option" "string \<rightharpoonup> Input"
  | ExecRun "StringT option"

record Step =
  Exec :: "Exec option"
  Pos :: "Pos option"

record Job =
  ID :: "StringT option"
  Name :: "StringT option"
  Steps :: "Step option list"

record Workflow =
  On :: "string list"
  Jobs :: "Job option list"

section \<open>Findings and errors\<close>

datatype DangerousWorkflowType =
    DangerousWorkflowScriptInjection
  | DangerousWorkflowUntrustedCheckout
  | DangerousWorkflowImposterReference

datatype FileType = FileTypeSource

record File =
  Path :: string
  FileType :: FileType
  Offset :: nat
  Snippet :: string

record WorkflowJob =
  JobName :: "string option"
  JobID :: "string option"

record DangerousWorkflow =
  Job :: "WorkflowJob option"
  Type :: DangerousWorkflowType
  File :: File

text \<open>
  The errors the analysis ends with. \<open>ErrInvalidGitHubWorkflow\<close> is the internal
  error built from \<open>errInvalidGitHubWorkflow\<close>, \<open>UnexpectedReference r\<close> the error
  \<open>unexpected reference: r\<close>, \<open>ErrInvalidArgLength\<close> and \<open>ErrInvalidArgType\<close> the
  two errors about the arguments of \<open>Validate\<close>, \<open>ActionlintError\<close> the error that
  \<open>FormatActionlintError\<close> builds from the errors of the parser, and \<open>ClientError\<close>
  an error that a collaborator returned. The two run-time panics a nil pointer or a
  slice out of range raise are values as well.
\<close>

datatype err =
    ErrInvalidGitHubWorkflow
  | UnexpectedReference string
  | ErrInvalidArgLength
  | ErrInvalidArgType
  | ActionlintError "string list"
  | ClientError string
  | NilPointerDereference
  | SliceBoundsOutOfRange

section \<open>Collaborators\<close>

text \<open>
  The repository client and the helpers of other packages are parameters of the model.
  A call to the client is recorded in a log, and each answer may depend on the calls
  made before it, so a client can fail once and succeed later. \<open>NewClient\<close> gives the
  client of another repository; the other three operations are those of that client.
  A branch and a tag are represented by their names.
  \<open>MakeGithubRepo\<close> parses a repository name and \<open>GetLineNumber\<close> gives the line
  of a position; \<open>IsWorkflowFile\<close> and \<open>CheckFileContainsCommands\<close> are the two
  tests of the file parser on the path and the content of a file, and \<open>Parse\<close> is
  the workflow parser, which gives a document or nil, and its errors. None of these
  reaches the remote side.
\<close>

type_synonym Repo = string
type_synonym Client = string

datatype call =
    CallNewClient Repo
  | CallListBranches Client
  | CallListTags Client
  | CallContainsRevision Client string string

record Env =
  GetLineNumber :: "Pos option \<Rightarrow> nat"
  MakeGithubRepo :: "string \<Rightarrow> err + Repo"
  NewClient :: "call list \<Rightarrow> Repo \<Rightarrow> err + Client"
  ListBranches :: "call list \<Rightarrow> Client \<Rightarrow> err + string list"
  ListTags :: "call list \<Rightarrow> Client \<Rightarrow> err + string list"
  ContainsRevision :: "call list \<Rightarrow> Client \<Rightarrow> string \<Rightarrow> string \<Rightarrow> err + bool"
  IsWorkflowFile :: "string \<Rightarrow> bool"
  CheckFileContainsCommands :: "string \<Rightarrow> string \<Rightarrow> bool"
  Parse :: "string \<Rightarrow> Workflow option \<times> string list"

section \<open>Untrusted checkout\<close>

definition triggerPullRequestTarget :: string where
  "triggerPullRequestTarget = ''pull_request_target''"

definition triggerWorkflowRun :: string where
  "triggerWorkflowRun = ''workflow_run''"

definition checkoutUntrustedPullRequestRef :: string where
  "checkoutUntrustedPullRequestRef = ''github.event.pull_request''"

definition checkoutUntrustedWorkflowRunRef :: string where
  "checkoutUntrustedWorkflowRunRef = ''github.event.workflow_run''"

fun eventLoop :: "string list \<Rightarrow> string \<Rightarrow> bool" where
  "eventLoop [] name = False"
| "eventLoop (event # events) name = (if event = name then True else eventLoop events name)"

definition usesEventTrigger :: "Workflow \<Rightarrow> string \<Rightarrow> bool" where
  "usesEventTrigger workflow name = eventLoop (On workflow) name"

definition createJob :: "Job option \<Rightarrow> WorkflowJob option" where
  "createJob job =
     (case job of
        None \<Rightarrow> None
      | Some j \<Rightarrow>
          Some \<lparr>JobName = map_option Value (Name j), JobID = map_option Value (ID j)\<rparr>)"

text \<open>The body of the loop over the steps of a job.\<close>

definition checkoutStep ::
  "Env \<Rightarrow> Job \<Rightarrow> string \<Rightarrow> Step option \<Rightarrow> DangerousWorkflow list \<Rightarrow> DangerousWorkflow list"
where
  "checkoutStep env job path step pdata =
     (case step of
        None \<Rightarrow> pdata
      | Some st \<Rightarrow>
          (case Exec st of
             None \<Rightarrow> pdata
           | Some (ExecRun run) \<Rightarrow> pdata
           | Some (ExecAction uses inputs) \<Rightarrow>
               (case uses of
                  None \<Rightarrow> pdata
                | Some u \<Rightarrow>
                    if \<not> strings_Contains (Value u) ''actions/checkout'' then pdata
                    else
                      (case inputs ''ref'' of
                         None \<Rightarrow> pdata
                       | Some ref \<Rightarrow>
                           (case InputValue ref of
                              None \<Rightarrow> pdata
                            | Some v \<Rightarrow>
                                if strings_Contains (Value v) checkoutUntrustedPullRequestRef
                                   \<or> strings_Contains (Value v) checkoutUntrustedWorkflowRunRef
                                then pdata @
                                  [\<lparr>Job = createJob (Some job),
                                    Type = DangerousWorkflowUntrustedCheckout,
                                    File = \<lparr>Path = path, FileType = FileTypeSource,
                                      Offset = GetLineNumber env (Pos st),
                                      Snippet = Value v\<rparr>\<rparr>]
                                else pdata)))))"

fun checkoutSteps ::
  "Env \<Rightarrow> Job \<Rightarrow> string \<Rightarrow> Step option list \<Rightarrow> DangerousWorkflow list
    \<Rightarrow> DangerousWorkflow list"
where
  "checkoutSteps env job path [] pdata = pdata"
| "checkoutSteps env job path (step # steps) pdata =
     checkoutSteps env job path steps (checkoutStep env job path step pdata)"

definition checkJobForUntrustedCodeCheckout ::
  "Env \<Rightarrow> Job option \<Rightarrow> string \<Rightarrow> DangerousWorkflow list
    \<Rightarrow> DangerousWorkflow list \<times> err option"
where
  "checkJobForUntrustedCodeCheckout env job path pdata =
     (case job of
        None \<Rightarrow> (pdata, None)
      | Some j \<Rightarrow> (checkoutSteps env j path (Steps j) pdata, None))"

fun checkoutJobs ::
  "Env \<Rightarrow> string \<Rightarrow> Job option list \<Rightarrow> DangerousWorkflow list
    \<Rightarrow> DangerousWorkflow list \<times> err option"
where
  "checkoutJobs env path [] pdata = (pdata, None)"
| "checkoutJobs env path (job # jobs) pdata =
     (case checkJobForUntrustedCodeCheckout env job path pdata of
        (pdata', Some e) \<Rightarrow> (pdata', Some e)
      | (pdata', None) \<Rightarrow> checkoutJobs env path jobs pdata')"

definition validateUntrustedCodeCheckout ::
  "Env \<Rightarrow> Workflow \<Rightarrow> string \<Rightarrow> DangerousWorkflow list
    \<Rightarrow> DangerousWorkflow list \<times> err option"
where
  "validateUntrustedCodeCheckout env workflow path pdata =
     (if \<not> usesEventTrigger workflow triggerPullRequestTarget
         \<and> \<not> usesEventTrigger workflow triggerWorkflowRun
      then (pdata, None)
      else checkoutJobs env path (Jobs workflow) pdata)"

section \<open>Script injection\<close>

text \<open>
  The slice \<open>s[lo:hi]\<close> of a string; Go panics unless \<open>lo \<le> hi \<le> len(s)\<close>.
\<close>

definition slice :: "string \<Rightarrow> nat \<Rightarrow> nat \<Rightarrow> string option" where
  "slice s lo hi = (if lo \<le> hi \<and> hi \<le> length s then Some (take (hi - lo) (drop lo s)) else None)"

definition scriptFinding :: "Env \<Rightarrow> Pos option \<Rightarrow> Job option \<Rightarrow> string \<Rightarrow> string \<Rightarrow> DangerousWorkflow" where
  "scriptFinding env pos job path variable =
     \<lparr>Job = createJob job,
      Type = DangerousWorkflowScriptInjection,
      File = \<lparr>Path = path, FileType = FileTypeSource,
        Offset = GetLineNumber env pos, Snippet = variable\<rparr>\<rparr>"

function checkVariablesInScript ::
  "Env \<Rightarrow> string \<Rightarrow> Pos option \<Rightarrow> Job option \<Rightarrow> string \<Rightarrow> DangerousWorkflow list
    \<Rightarrow> DangerousWorkflow list \<times> err option"
where
  "checkVariablesInScript env script pos job path pdata =
     (case strings_Index script ''${{'' of
        None \<Rightarrow> (pdata, None)
      | Some s \<Rightarrow>
          (case strings_Index (drop s script) ''}}'' of
             None \<Rightarrow> (pdata, Some ErrInvalidGitHubWorkflow)
           | Some e \<Rightarrow>
               (case slice script (s + 3) (s + e) of
                  None \<Rightarrow> (pdata, Some SliceBoundsOutOfRange)
                | Some variable \<Rightarrow>
                    checkVariablesInScript env (drop (s + e) script) pos job path
                      (if containsUntrustedContextPattern variable
                       then pdata @ [scriptFinding env pos job path variable]
                       else pdata))))"
  by pat_completeness auto
termination
  by (relation "measure (\<lambda>(env, script, pos, job, path, pdata). length script)")
    (auto simp: slice_def split: if_splits)

text \<open>
  The expressions that the loop of \<open>checkVariablesInScript\<close> extracts (the values
  of its local \<open>variable\<close>, in order) and the error it ends with.
\<close>

function scriptVariables :: "string \<Rightarrow> string list \<times> err option" where
  "scriptVariables script =
     (case strings_Index script ''${{'' of
        None \<Rightarrow> ([], None)
      | Some s \<Rightarrow>
          (case strings_Index (drop s script) ''}}'' of
             None \<Rightarrow> ([], Some ErrInvalidGitHubWorkflow)
           | Some e \<Rightarrow>
               (case slice script (s + 3) (s + e) of
                  None \<Rightarrow> ([], Some SliceBoundsOutOfRange)
                | Some variable \<Rightarrow>
                    (case scriptVariables (drop (s + e) script) of
                       (vs, r) \<Rightarrow> (variable # vs, r)))))"
  by pat_completeness auto
termination
  by (relation "measure length") (auto simp: slice_def split: if_splits)

text \<open>The body of the loop over the steps of a job.\<close>

definition scriptStep ::
  "Env \<Rightarrow> Job \<Rightarrow> string \<Rightarrow> Step option \<Rightarrow> DangerousWorkflow list
    \<Rightarrow> DangerousWorkflow list \<times> err option"
where
  "scriptStep env job path step pdata =
     (case step of
        None \<Rightarrow> (pdata, None)
      | Some st \<Rightarrow>
          (case Exec st of
             Some (ExecRun (Some run)) \<Rightarrow>
               checkVariablesInScript env (Value run) (StrPos run) (Some job) path pdata
           | _ \<Rightarrow> (pdata, None)))"

fun scriptSteps ::
  "Env \<Rightarrow> Job \<Rightarrow> string \<Rightarrow> Step option list \<Rightarrow> DangerousWorkflow list
    \<Rightarrow> DangerousWorkflow list \<times> err option"
where
  "scriptSteps env job path [] pdata = (pdata, None)"
| "scriptSteps env job path (step # steps) pdata =
     (case scriptStep env job path step pdata of
        (pdata', Some e) \<Rightarrow> (pdata', Some e)
      | (pdata', None) \<Rightarrow> scriptSteps env job path steps pdata')"

fun scriptJobs ::
  "Env \<Rightarrow> string \<Rightarrow> Job option list \<Rightarrow> DangerousWorkflow list
    \<Rightarrow> DangerousWorkflow list \<times> err option"
where
  "scriptJobs env path [] pdata = (pdata, None)"
| "scriptJobs env path (None # jobs) pdata = scriptJobs env path jobs pdata"
| "scriptJobs env path (Some job # jobs) pdata =
     (case scriptSteps env job path (Steps job) pdata of
        (pdata', Some e) \<Rightarrow> (pdata', Some e)
      | (pdata', None) \<Rightarrow> scriptJobs env path jobs pdata')"

definition validateScriptInjection ::
  "Env \<Rightarrow> Workflow \<Rightarrow> string \<Rightarrow> DangerousWorkflow list
    \<Rightarrow> DangerousWorkflow list \<times> err option"
where
  "validateScriptInjection env workflow path pdata = scriptJobs env path (Jobs workflow) pdata"

section \<open>Imposter commits\<close>

text \<open>
  The two loops of \<open>checkImposterCommit\<close>, over the branches and over the tags,
  differ in the prefix of the reference only. The loop gives \<open>Some\<close> of the value the
  function returns from inside it, or \<open>None\<close> when it ran to its end.
\<close>

fun revisionLoop ::
  "Env \<Rightarrow> Client \<Rightarrow> string \<Rightarrow> string \<Rightarrow> string list \<Rightarrow> call list
    \<Rightarrow> (bool \<times> err option) option \<times> call list"
where
  "revisionLoop env c pre target [] calls = (None, calls)"
| "revisionLoop env c pre target (b # bs) calls =
     (case ContainsRevision env calls c (pre @ b) target of
        Inl e \<Rightarrow> (Some (False, Some e), calls @ [CallContainsRevision c (pre @ b) target])
      | Inr ok \<Rightarrow>
          if ok then (Some (True, None), calls @ [CallContainsRevision c (pre @ b) target])
          else revisionLoop env c pre target bs
                 (calls @ [CallContainsRevision c (pre @ b) target]))"

definition checkImposterCommit ::
  "Env \<Rightarrow> Client \<Rightarrow> string \<Rightarrow> call list \<Rightarrow> (bool \<times> err option) \<times> call list"
where
  "checkImposterCommit env c target calls =
     (case ListBranches env calls c of
        Inl e \<Rightarrow> ((False, Some e), calls @ [CallListBranches c])
      | Inr branches \<Rightarrow>
          (case revisionLoop env c ''refs/heads/'' target branches
                  (calls @ [CallListBranches c]) of
             (Some r, calls1) \<Rightarrow> (r, calls1)
           | (None, calls1) \<Rightarrow>
               (case ListTags env calls1 c of
                  Inl e \<Rightarrow> ((False, Some e), calls1 @ [CallListTags c])
                | Inr tags \<Rightarrow>
                    (case revisionLoop env c ''refs/tags/'' target tags
                            (calls1 @ [CallListTags c]) of
                       (Some r, calls2) \<Rightarrow> (r, calls2)
                     | (None, calls2) \<Rightarrow> ((False, None), calls2)))))"

type_synonym commitKey = "string \<times> string"

text \<open>
  \<open>Contains\<close> of the cache: the value returned (a boolean and an error, as the Go
  function returns both), the cache after the call and the log of remote calls.
\<close>

definition Contains ::
  "Env \<Rightarrow> (commitKey \<rightharpoonup> bool) \<Rightarrow> string \<Rightarrow> string \<Rightarrow> call list
    \<Rightarrow> (bool \<times> err option) \<times> (commitKey \<rightharpoonup> bool) \<times> call list"
where
  "Contains env cache repo sha calls =
     (case cache (repo, sha) of
        Some v \<Rightarrow> ((v, None), cache, calls)
      | None \<Rightarrow>
          (case MakeGithubRepo env repo of
             Inl e \<Rightarrow> ((False, Some e), cache, calls)
           | Inr gh \<Rightarrow>
               (case NewClient env calls gh of
                  Inl e \<Rightarrow> ((False, Some e), cache, calls @ [CallNewClient gh])
                | Inr subclient \<Rightarrow>
                    (case checkImposterCommit env subclient sha (calls @ [CallNewClient gh]) of
                       ((out, e), calls') \<Rightarrow>
                         ((out, e), cache((repo, sha) \<mapsto> out), calls')))))"

text \<open>The state of the walk: the cache, the log of remote calls and the findings.\<close>

record walk =
  cache :: "commitKey \<rightharpoonup> bool"
  calls :: "call list"
  Workflows :: "DangerousWorkflow list"

definition imposterFinding :: "Env \<Rightarrow> Job \<Rightarrow> string \<Rightarrow> Step \<Rightarrow> string \<Rightarrow> DangerousWorkflow" where
  "imposterFinding env job path st trimmedRef =
     \<lparr>Job = createJob (Some job),
      Type = DangerousWorkflowImposterReference,
      File = \<lparr>Path = path, FileType = FileTypeSource,
        Offset = GetLineNumber env (Pos st), Snippet = trimmedRef\<rparr>\<rparr>"

text \<open>The body of the loop over the steps of a job.\<close>

definition imposterStep ::
  "Env \<Rightarrow> Job \<Rightarrow> string \<Rightarrow> Step option \<Rightarrow> walk \<Rightarrow> walk \<times> err option"
where
  "imposterStep env job path step w =
     (case step of
        None \<Rightarrow> (w, Some NilPointerDereference)
      | Some st \<Rightarrow>
          (case Exec st of
             Some (ExecAction uses inputs) \<Rightarrow>
               (case uses of
                  None \<Rightarrow> (w, Some NilPointerDereference)
                | Some u \<Rightarrow>
                    (let ref = Value u;
                         trimmedRef = strings_TrimPrefix ref ''actions://'';
                         s = strings_Split trimmedRef (CHR ''@'')
                     in if length s \<noteq> 2 then (w, Some (UnexpectedReference trimmedRef))
                        else
                          (let repo = s ! 0; sha = s ! 1 in
                           (case Contains env (cache w) repo sha (calls w) of
                              ((ok, r), cache', calls') \<Rightarrow>
                                (case r of
                                   Some e \<Rightarrow> (w\<lparr>cache := cache', calls := calls'\<rparr>, Some e)
                                 | None \<Rightarrow>
                                     if \<not> ok
                                     then (w\<lparr>cache := cache', calls := calls',
                                             Workflows := Workflows w @
                                               [imposterFinding env job path st trimmedRef]\<rparr>,
                                           None)
                                     else (w\<lparr>cache := cache', calls := calls'\<rparr>, None))))))
           | _ \<Rightarrow> (w, None)))"

fun imposterSteps ::
  "Env \<Rightarrow> Job \<Rightarrow> string \<Rightarrow> Step option list \<Rightarrow> walk \<Rightarrow> walk \<times> err option"
where
  "imposterSteps env job path [] w = (w, None)"
| "imposterSteps env job path (step # steps) w =
     (case imposterStep env job path step w of
        (w', Some e) \<Rightarrow> (w', Some e)
      | (w', None) \<Rightarrow> imposterSteps env job path steps w')"

fun imposterJobs :: "Env \<Rightarrow> string \<Rightarrow> Job option list \<Rightarrow> walk \<Rightarrow> walk \<times> err option" where
  "imposterJobs env path [] w = (w, None)"
| "imposterJobs env path (None # jobs) w = (w, Some NilPointerDereference)"
| "imposterJobs env path (Some job # jobs) w =
     (case imposterSteps env job path (Steps job) w of
        (w', Some e) \<Rightarrow> (w', Some e)
      | (w', None) \<Rightarrow> imposterJobs env path jobs w')"

text \<open>
  \<open>validateImposterCommits\<close> starts from an empty cache of its own; it gives the
  findings, the log of remote calls and the error.
\<close>

definition validateImposterCommits ::
  "Env \<Rightarrow> Workflow \<Rightarrow> string \<Rightarrow> DangerousWorkflow list \<times> call list
    \<Rightarrow> (DangerousWorkflow list \<times> call list) \<times> err option"
where
  "validateImposterCommits env workflow path st =
     (case imposterJobs env path (Jobs workflow)
             \<lparr>cache = Map.empty, calls = snd st, Workflows = fst st\<rparr> of
        (w, r) \<Rightarrow> ((Workflows w, calls w), r))"

section \<open>The three checks in sequence\<close>

text \<open>
  The arguments that follow the content in a call of \<open>Validate\<close> are values of any
  type; what the function asks of them is that there be one, a pointer to the result
  data. The result data itself is the list of findings in the state.
\<close>

datatype arg = DangerousWorkflowDataArg | OtherArg




section \<open>An example environment\<close>

text \<open>
  A client whose calls all succeed: every repository has the branch \<open>main\<close> and the
  tag \<open>v1\<close>, and the only revision reachable from them is \<open>1234\<close>.
\<close>

definition exampleEnv :: Env where
  "exampleEnv =
     \<lparr>GetLineNumber = (\<lambda>pos. case pos of None \<Rightarrow> 1 | Some (line, col) \<Rightarrow> line),
      MakeGithubRepo = (\<lambda>input. Inr input),
      NewClient = (\<lambda>calls repo. Inr repo),
      ListBranches = (\<lambda>calls c. Inr [''main'']),
      ListTags = (\<lambda>calls c. Inr [''v1'']),
      ContainsRevision = (\<lambda>calls c base target. Inr (target = ''1234'')),
      IsWorkflowFile = (\<lambda>path. True),
      CheckFileContainsCommands = (\<lambda>content comment. True),
      Parse = (\<lambda>content. (None, [''no workflow'']))\<rparr>"

section \<open>Facts about the string functions\<close>

lemma Index_None_iff: "strings_Index s sub = None \<longleftrightarrow> (\<forall>u w. s \<noteq> u @ sub @ w)"
proof (induction s)
  case Nil
  then show ?case by auto
next
  case (Cons c cs)
  show ?case
  proof (cases "prefix sub (c # cs)")
    case True
    then obtain w where "c # cs = sub @ w" by (auto simp: prefix_def)
    then have "c # cs = [] @ sub @ w" by simp
    with True show ?thesis by (metis strings_Index.simps(2) option.distinct(1))
  next
    case False
    have "(\<exists>u w. c # cs = u @ sub @ w) \<longleftrightarrow> (\<exists>u w. cs = u @ sub @ w)"
    proof
      assume "\<exists>u w. c # cs = u @ sub @ w"
      then obtain u w where uw: "c # cs = u @ sub @ w" by blast
      with False have "u \<noteq> []" by (auto simp: prefix_def)
      then obtain u' where "u = c # u'" using uw by (cases u) auto
      with uw show "\<exists>u w. cs = u @ sub @ w" by auto
    next
      assume "\<exists>u w. cs = u @ sub @ w"
      then obtain u w where "cs = u @ sub @ w" by blast
      then have "c # cs = (c # u) @ sub @ w" by simp
      then show "\<exists>u w. c # cs = u @ sub @ w" by blast
    qed
    with False Cons show ?thesis by auto
  qed
qed

lemma strings_Contains_iff: "strings_Contains s sub \<longleftrightarrow> (\<exists>u w. s = u @ sub @ w)"
  by (simp add: strings_Contains_def Index_None_iff)

lemma Index_Some:
  "strings_Index s sub = Some i \<Longrightarrow> prefix sub (drop i s) \<and> i \<le> length s
      \<and> (\<forall>j<i. \<not> prefix sub (drop j s))"
proof (induction s arbitrary: i)
  case Nil
  then show ?case by (auto split: if_splits)
next
  case (Cons c cs)
  show ?case
  proof (cases "prefix sub (c # cs)")
    case True
    with Cons.prems show ?thesis by simp
  next
    case False
    with Cons.prems obtain k where k: "strings_Index cs sub = Some k" "i = Suc k" by auto
    from Cons.IH[OF k(1)] have ih: "prefix sub (drop k cs)" "k \<le> length cs"
      "\<forall>j<k. \<not> prefix sub (drop j cs)" by auto
    have "\<not> prefix sub (drop j (c # cs))" if "j < i" for j
      using that False ih(3) k(2) by (cases j) auto
    with ih k show ?thesis by simp
  qed
qed

lemma Index_prefix: "prefix sub t \<Longrightarrow> strings_Index t sub = Some 0"
  by (cases t) auto

lemma Index_shift:
  "\<forall>j<k. \<not> prefix sub (drop j t) \<Longrightarrow> k \<le> length t \<Longrightarrow>
     strings_Index t sub = map_option ((+) k) (strings_Index (drop k t) sub)"
proof (induction t arbitrary: k)
  case Nil
  then show ?case by (simp add: option.map_ident)
next
  case (Cons c cs)
  show ?case
  proof (cases k)
    case 0
    have "map_option (\<lambda>a. a) x = x" for x :: "nat option" by (cases x) auto
    with 0 show ?thesis by simp
  next
    case (Suc k')
    from Cons.prems(1) Suc have np: "\<not> prefix sub (c # cs)" by force
    have "\<forall>j<k'. \<not> prefix sub (drop j cs)"
    proof (intro allI impI)
      fix j assume "j < k'"
      then have "Suc j < k" using Suc by simp
      with Cons.prems(1) have "\<not> prefix sub (drop (Suc j) (c # cs))" by blast
      then show "\<not> prefix sub (drop j cs)" by simp
    qed
    moreover have "k' \<le> length cs" using Cons.prems(2) Suc by simp
    ultimately have ih: "strings_Index cs sub = map_option ((+) k') (strings_Index (drop k' cs) sub)"
      by (rule Cons.IH)
    have "strings_Index (c # cs) sub = map_option Suc (strings_Index cs sub)"
      using np by simp
    also have "\<dots> = map_option (Suc \<circ> (+) k') (strings_Index (drop k' cs) sub)"
      by (subst ih) (simp add: option.map_comp)
    also have "Suc \<circ> (+) k' = (+) k" using Suc by auto
    finally show ?thesis using Suc by simp
  qed
qed

lemma Index_Some_iff:
  "strings_Index s sub = Some i \<longleftrightarrow>
     prefix sub (drop i s) \<and> i \<le> length s \<and> (\<forall>j<i. \<not> prefix sub (drop j s))"
proof
  assume "strings_Index s sub = Some i"
  then show "prefix sub (drop i s) \<and> i \<le> length s \<and> (\<forall>j<i. \<not> prefix sub (drop j s))"
    by (rule Index_Some)
next
  assume a: "prefix sub (drop i s) \<and> i \<le> length s \<and> (\<forall>j<i. \<not> prefix sub (drop j s))"
  then have "strings_Index s sub = map_option ((+) i) (strings_Index (drop i s) sub)"
    by (intro Index_shift) auto
  with a show "strings_Index s sub = Some i" by (simp add: Index_prefix)
qed

lemma Index_None_drop:
  "strings_Index s sub = None \<longleftrightarrow> (\<forall>j\<le>length s. \<not> prefix sub (drop j s))"
proof
  assume n: "strings_Index s sub = None"
  show "\<forall>j\<le>length s. \<not> prefix sub (drop j s)"
  proof (intro allI impI notI)
    fix j assume "j \<le> length s" "prefix sub (drop j s)"
    then obtain w where "drop j s = sub @ w" unfolding prefix_def by blast
    then have "s = take j s @ sub @ w" by (metis append_take_drop_id)
    with n show False unfolding Index_None_iff by blast
  qed
next
  assume a: "\<forall>j\<le>length s. \<not> prefix sub (drop j s)"
  show "strings_Index s sub = None"
  proof (rule ccontr)
    assume "strings_Index s sub \<noteq> None"
    then obtain i where "strings_Index s sub = Some i" by blast
    then have "prefix sub (drop i s)" "i \<le> length s" using Index_Some by blast+
    with a show False by blast
  qed
qed

text \<open>An opening delimiter is no place for a closing one.\<close>

lemma open_not_close:
  assumes "prefix ''${{'' t" "j < 3"
  shows "\<not> prefix ''}}'' (drop j t)"
proof -
  from assms(1) obtain w where t: "t = ''${{'' @ w" unfolding prefix_def by blast
  from assms(2) consider "j = 0" | "j = 1" | "j = 2" by linarith
  then show ?thesis
    by cases (simp_all add: t)
qed

lemma close_not_open:
  assumes "prefix ''}}'' t" "j < 2"
  shows "\<not> prefix ''${{'' (drop j t)"
proof -
  from assms(1) obtain w where t: "t = ''}}'' @ w" unfolding prefix_def by blast
  from assms(2) consider "j = 0" | "j = 1" by linarith
  then show ?thesis
    by cases (simp_all add: t)
qed

lemma close_after_open:
  assumes "prefix ''${{'' t"
  shows "strings_Index t ''}}'' = map_option ((+) 3) (strings_Index (drop 3 t) ''}}'')"
proof (rule Index_shift)
  show "\<forall>j<3. \<not> prefix ''}}'' (drop j t)" using open_not_close[OF assms] by blast
  from assms obtain w where "t = ''${{'' @ w" unfolding prefix_def by blast
  then show "3 \<le> length t" by simp
qed

lemma open_after_close:
  assumes "prefix ''}}'' t"
  shows "strings_Index t ''${{'' = map_option ((+) 2) (strings_Index (drop 2 t) ''${{'')"
proof (rule Index_shift)
  show "\<forall>j<2. \<not> prefix ''${{'' (drop j t)" using close_not_open[OF assms] by blast
  from assms obtain w where "t = ''}}'' @ w" unfolding prefix_def by blast
  then show "2 \<le> length t" by simp
qed

section \<open>The expression risk matcher\<close>

text \<open>
  The language of a pattern, and the matcher against it.
\<close>

lemma dotstar_self: "s \<in> set (dotstar s)"
  by (cases s) auto

lemma dotstar_iff: "t \<in> set (dotstar s) \<longleftrightarrow> (\<exists>u. s = u @ t \<and> newline \<notin> set u)"
proof (induction s)
  case Nil
  then show ?case by auto
next
  case (Cons c cs)
  show ?case
  proof
    assume "t \<in> set (dotstar (c # cs))"
    then consider "t = c # cs" | "c \<noteq> newline" "t \<in> set (dotstar cs)"
      by (auto split: if_splits)
    then show "\<exists>u. c # cs = u @ t \<and> newline \<notin> set u"
    proof cases
      case 1
      then show ?thesis by auto
    next
      case 2
      with Cons obtain u where "cs = u @ t" "newline \<notin> set u" by auto
      with 2 have "c # cs = (c # u) @ t \<and> newline \<notin> set (c # u)" by auto
      then show ?thesis by blast
    qed
  next
    assume "\<exists>u. c # cs = u @ t \<and> newline \<notin> set u"
    then obtain u where u: "c # cs = u @ t" "newline \<notin> set u" by blast
    show "t \<in> set (dotstar (c # cs))"
    proof (cases u)
      case Nil
      with u show ?thesis using dotstar_self[of t] by simp
    next
      case (Cons a u')
      with u have "a = c" "cs = u' @ t" "newline \<notin> set u'" "c \<noteq> newline" by auto
      with Cons.IH show ?thesis by auto
    qed
  qed
qed

fun lang :: "rexp \<Rightarrow> string set" where
  "lang (Lit w) = {w}"
| "lang DotStar = {u. newline \<notin> set u}"
| "lang (Seq a b) = {u @ v |u v. u \<in> lang a \<and> v \<in> lang b}"
| "lang (Alt a b) = lang a \<union> lang b"

lemma rmatch_iff: "t \<in> set (rmatch r s) \<longleftrightarrow> (\<exists>u. s = u @ t \<and> u \<in> lang r)"
proof (induction r arbitrary: s t)
  case (Lit w)
  then show ?case by (auto simp: prefix_def)
next
  case DotStar
  then show ?case by (simp add: dotstar_iff)
next
  case (Seq a b)
  show ?case
  proof
    assume "t \<in> set (rmatch (Seq a b) s)"
    then obtain m where "m \<in> set (rmatch a s)" "t \<in> set (rmatch b m)" by auto
    with Seq obtain u v where "s = u @ m" "u \<in> lang a" "m = v @ t" "v \<in> lang b" by blast
    then have "s = (u @ v) @ t \<and> u @ v \<in> lang (Seq a b)" by auto
    then show "\<exists>u. s = u @ t \<and> u \<in> lang (Seq a b)" by blast
  next
    assume "\<exists>u. s = u @ t \<and> u \<in> lang (Seq a b)"
    then obtain u v where "s = (u @ v) @ t" "u \<in> lang a" "v \<in> lang b" by auto
    then have "v @ t \<in> set (rmatch a s)" "t \<in> set (rmatch b (v @ t))"
      using Seq by auto
    then show "t \<in> set (rmatch (Seq a b) s)" by auto
  qed
next
  case (Alt a b)
  then show ?case by auto
qed

lemma MatchString_iff: "MatchString r s \<longleftrightarrow> (\<exists>u v w. s = u @ v @ w \<and> v \<in> lang r)"
proof
  assume "MatchString r s"
  then obtain t where "suffix t s" "rmatch r t \<noteq> []"
    by (auto simp: MatchString_def list_ex_iff)
  then obtain u w where "s = u @ t" "w \<in> set (rmatch r t)"
    by (cases "rmatch r t") (auto simp: suffix_def)
  then show "\<exists>u v w. s = u @ v @ w \<and> v \<in> lang r"
    by (auto simp: rmatch_iff)
next
  assume "\<exists>u v w. s = u @ v @ w \<and> v \<in> lang r"
  then obtain u v w where "s = u @ v @ w" "v \<in> lang r" by blast
  then have "suffix (v @ w) s" "w \<in> set (rmatch r (v @ w))"
    by (auto simp: suffix_def rmatch_iff)
  then show "MatchString r s"
    unfolding MatchString_def list_ex_iff by (metis empty_iff in_set_suffixes list.set(1))
qed

text \<open>
  The matcher as the specification words it: a list of untrusted field paths. A path is
  literal text, or two pieces of text with anything but a line break between them.
\<close>

datatype field_pattern = Field string | Wild string string

definition untrusted_fields :: "field_pattern list" where
  "untrusted_fields =
     [Field ''issue.title'',
      Field ''issue.body'',
      Field ''pull_request.title'',
      Field ''pull_request.body'',
      Field ''comment.body'',
      Field ''review.body'',
      Field ''review_comment.body'',
      Wild ''pages'' ''.page_name'',
      Wild ''commits'' ''.message'',
      Field ''head_commit.message'',
      Field ''head_commit.author.email'',
      Field ''head_commit.author.name'',
      Wild ''commits'' ''.author.email'',
      Wild ''commits'' ''.author.name'',
      Field ''pull_request.head.ref'',
      Field ''pull_request.head.label'',
      Field ''pull_request.head.repo.default_branch'']"

definition sameLine :: "string \<Rightarrow> string" where
  "sameLine s = takeWhile (\<lambda>c. c \<noteq> newline) s"

fun occurs :: "field_pattern \<Rightarrow> string \<Rightarrow> bool" where
  "occurs (Field f) s = strings_Contains s f"
| "occurs (Wild a b) s =
     list_ex (\<lambda>t. prefix a t \<and> strings_Contains (sameLine (drop (length a) t)) b) (suffixes s)"

definition expression_is_risky :: "string \<Rightarrow> bool" where
  "expression_is_risky v =
     (strings_Contains v ''github.head_ref''
      \<or> (strings_Contains v ''github.event.'' \<and> list_ex (\<lambda>p. occurs p v) untrusted_fields))"

fun rexp_of :: "field_pattern \<Rightarrow> rexp" where
  "rexp_of (Field f) = Lit f"
| "rexp_of (Wild a b) = Seq (Lit a) (Seq DotStar (Lit b))"

definition sub_lang :: "rexp \<Rightarrow> string \<Rightarrow> bool" where
  "sub_lang r s = (\<exists>u v w. s = u @ v @ w \<and> v \<in> lang r)"

lemma in_lang_Seq: "x \<in> lang (Seq a b) \<longleftrightarrow> (\<exists>u v. x = u @ v \<and> u \<in> lang a \<and> v \<in> lang b)"
  by (simp only: lang.simps mem_Collect_eq)

lemma lang_SeqI: "u \<in> lang a \<Longrightarrow> v \<in> lang b \<Longrightarrow> u @ v \<in> lang (Seq a b)"
  unfolding in_lang_Seq by blast

lemma sub_lang_wrap: "sub_lang (Seq DotStar (Seq A DotStar)) s = sub_lang A s"
proof
  assume "sub_lang (Seq DotStar (Seq A DotStar)) s"
  then obtain u a m b w where "s = u @ (a @ m @ b) @ w" "m \<in> lang A"
    unfolding sub_lang_def in_lang_Seq by blast
  then have "s = (u @ a) @ m @ (b @ w)" by simp
  with \<open>m \<in> lang A\<close> show "sub_lang A s" unfolding sub_lang_def by blast
next
  assume "sub_lang A s"
  then obtain u m w where m: "s = u @ m @ w" "m \<in> lang A"
    unfolding sub_lang_def by blast
  have e: "[] \<in> lang DotStar" by simp
  have "[] @ m @ [] \<in> lang (Seq DotStar (Seq A DotStar))"
    by (intro lang_SeqI e m(2))
  then have "m \<in> lang (Seq DotStar (Seq A DotStar))" by simp
  with m(1) show "sub_lang (Seq DotStar (Seq A DotStar)) s"
    unfolding sub_lang_def by blast
qed

lemma lang_alts: "lang (alts r rs) = lang r \<union> (\<Union>x\<in>set rs. lang x)"
  by (induction r rs rule: alts.induct) simp_all

lemma sub_lang_alts:
  "sub_lang (alts r rs) s = list_ex (\<lambda>x. sub_lang x s) (r # rs)"
proof -
  have "sub_lang (alts r rs) s = (\<exists>x\<in>set (r # rs). sub_lang x s)"
    unfolding sub_lang_def lang_alts by (simp only: Un_iff UN_iff list.set insert_iff bex_simps) blast
  then show ?thesis by (simp only: list_ex_iff)
qed

lemma sub_lang_Field: "sub_lang (Lit f) s = strings_Contains s f"
  by (simp add: sub_lang_def strings_Contains_iff)

lemma occurs_Wild_iff:
  "occurs (Wild a b) s \<longleftrightarrow>
     (\<exists>t. suffix t s \<and> prefix a t \<and> strings_Contains (sameLine (drop (length a) t)) b)"
  by (simp add: list_ex_iff Bex_def)

lemma sub_lang_Wild:
  assumes "newline \<notin> set b"
  shows "sub_lang (Seq (Lit a) (Seq DotStar (Lit b))) s = occurs (Wild a b) s"
proof
  assume "sub_lang (Seq (Lit a) (Seq DotStar (Lit b))) s"
  then obtain u g w where s: "s = u @ (a @ g @ b) @ w" and g: "newline \<notin> set g"
    unfolding sub_lang_def in_lang_Seq lang.simps(1,2) by blast
  let ?t = "a @ g @ b @ w"
  have "s = u @ ?t" using s by simp
  then have "suffix ?t s" unfolding suffix_def by blast
  moreover have "prefix a ?t" by simp
  moreover have "strings_Contains (sameLine (drop (length a) ?t)) b"
  proof -
    have "takeWhile (\<lambda>c. c \<noteq> newline) ((g @ b) @ w)
        = (g @ b) @ takeWhile (\<lambda>c. c \<noteq> newline) w"
      by (rule takeWhile_append2) (use g assms in auto)
    then have "sameLine (drop (length a) ?t) = g @ b @ sameLine w"
      unfolding sameLine_def by simp
    then show ?thesis unfolding strings_Contains_iff by blast
  qed
  ultimately show "occurs (Wild a b) s"
    unfolding occurs_Wild_iff by blast
next
  assume "occurs (Wild a b) s"
  then obtain t where t: "suffix t s" "prefix a t"
      "strings_Contains (sameLine (drop (length a) t)) b"
    unfolding occurs_Wild_iff by blast
  from t(1) obtain u where u: "s = u @ t" unfolding suffix_def by blast
  from t(2) obtain r where r: "t = a @ r" unfolding prefix_def by blast
  from t(3) have "strings_Contains (sameLine r) b" unfolding r by simp
  then obtain x y where xy: "sameLine r = x @ b @ y"
    unfolding strings_Contains_iff by blast
  have "set x \<subseteq> set (sameLine r)" unfolding xy by simp
  then have nl: "newline \<notin> set x"
    unfolding sameLine_def using set_takeWhileD by fastforce
  have "r = sameLine r @ dropWhile (\<lambda>c. c \<noteq> newline) r"
    unfolding sameLine_def by simp
  then have "r = (x @ b @ y) @ dropWhile (\<lambda>c. c \<noteq> newline) r"
    unfolding xy .
  then have "r = x @ b @ (y @ dropWhile (\<lambda>c. c \<noteq> newline) r)" by simp
  then obtain z where z: "r = x @ b @ z" ..
  have "s = u @ (a @ x @ b) @ z" unfolding u r by (subst z) simp
  moreover have "a @ x @ b \<in> lang (Seq (Lit a) (Seq DotStar (Lit b)))"
    by (intro lang_SeqI) (use nl in simp_all)
  ultimately show "sub_lang (Seq (Lit a) (Seq DotStar (Lit b))) s"
    unfolding sub_lang_def by blast
qed

fun single_line :: "field_pattern \<Rightarrow> bool" where
  "single_line (Field f) = True"
| "single_line (Wild a b) = (newline \<notin> set b)"

lemma sub_lang_rexp_of: "single_line p \<Longrightarrow> sub_lang (rexp_of p) s = occurs p s"
  by (cases p) (simp_all add: sub_lang_Field sub_lang_Wild)

lemma untrustedContextPattern_fields:
  "untrustedContextPattern =
     Seq DotStar (Seq (alts (rexp_of (hd untrusted_fields)) (map rexp_of (tl untrusted_fields)))
       DotStar)"
  by (simp add: untrustedContextPattern_def untrusted_fields_def)

lemma untrusted_fields_single_line: "list_all single_line untrusted_fields"
  by (simp add: untrusted_fields_def)

lemma MatchString_untrustedContextPattern:
  "MatchString untrustedContextPattern s = list_ex (\<lambda>p. occurs p s) untrusted_fields"
proof -
  have ne: "untrusted_fields = hd untrusted_fields # tl untrusted_fields"
    by (simp add: untrusted_fields_def)
  have "MatchString untrustedContextPattern s
      = sub_lang (alts (rexp_of (hd untrusted_fields)) (map rexp_of (tl untrusted_fields))) s"
    unfolding MatchString_iff untrustedContextPattern_fields
    using sub_lang_wrap unfolding sub_lang_def .
  also have "\<dots> = list_ex (\<lambda>x. sub_lang x s) (map rexp_of untrusted_fields)"
    unfolding sub_lang_alts by (subst (2) ne) simp
  also have "\<dots> = list_ex (\<lambda>p. sub_lang (rexp_of p) s) untrusted_fields"
    by (simp add: list_ex_iff)
  also have "\<dots> = list_ex (\<lambda>p. occurs p s) untrusted_fields"
    using untrusted_fields_single_line
    unfolding list_ex_iff list_all_iff by (auto simp: sub_lang_rexp_of)
  finally show ?thesis .
qed

text \<open>
  Claim C7. An expression is reported as risky exactly when it contains
  \<open>github.head_ref\<close>, or contains \<open>github.event.\<close> and one of the untrusted
  field paths occurs in it.
\<close>

theorem containsUntrustedContextPattern_risky:
  "containsUntrustedContextPattern variable = expression_is_risky variable"
  unfolding containsUntrustedContextPattern_def expression_is_risky_def
    MatchString_untrustedContextPattern by simp

theorem containsUntrustedContextPattern_risky_witness:
  "containsUntrustedContextPattern '' github.event.commits[0].author.name ''
   \<and> \<not> containsUntrustedContextPattern (''github.event.commits['' @ [newline] @ ''].message'')
   \<and> \<not> containsUntrustedContextPattern ''issue.title''"
proof -
  have "expression_is_risky '' github.event.commits[0].author.name ''" by code_simp
  moreover have "\<not> expression_is_risky (''github.event.commits['' @ [newline] @ ''].message'')"
    by code_simp
  moreover have "\<not> expression_is_risky ''issue.title''" by code_simp
  ultimately show ?thesis by (simp only: containsUntrustedContextPattern_risky simp_thms)
qed

section \<open>The expression scanner\<close>

text \<open>
  The scanning algorithm as the specification words it: find the next opening
  delimiter, find the next closing delimiter after it, take the text between the two,
  go on just past the closing delimiter. It gives \<open>None\<close> when an opening delimiter
  has no closing delimiter after it.
\<close>

lemma Index_nonempty: "strings_Index script (c # sub) = Some s \<Longrightarrow> script \<noteq> []"
  by (cases script) auto

function reference_scan :: "string \<Rightarrow> string list option" where
  "reference_scan script =
     (case strings_Index script ''${{'' of
        None \<Rightarrow> Some []
      | Some s \<Rightarrow>
          (case strings_Index (drop (s + 3) script) ''}}'' of
             None \<Rightarrow> None
           | Some e \<Rightarrow>
               map_option ((#) (take e (drop (s + 3) script)))
                 (reference_scan (drop (e + 2) (drop (s + 3) script)))))"
  by pat_completeness auto
termination
  by (relation "measure length") (auto dest: Index_nonempty)

definition expressions_closed :: "string \<Rightarrow> bool" where
  "expressions_closed script =
     list_all (\<lambda>i. prefix ''${{'' (drop i script) \<longrightarrow>
                 list_ex (\<lambda>j. prefix ''}}'' (drop j script)) [i + 1 ..< length script])
       [0 ..< length script]"

declare checkVariablesInScript.simps [simp del]
declare scriptVariables.simps [simp del]
declare reference_scan.simps [simp del]

lemma prefix_drop_less:
  assumes "prefix (c # sub) (drop i t)"
  shows "i < length t"
proof (rule ccontr)
  assume "\<not> i < length t"
  then have "drop i t = []" by simp
  with assms show False by simp
qed

lemma expressions_closed_iff:
  "expressions_closed script \<longleftrightarrow>
     (\<forall>i. prefix ''${{'' (drop i script) \<longrightarrow> (\<exists>j>i. prefix ''}}'' (drop j script)))"
proof
  assume c: "expressions_closed script"
  show "\<forall>i. prefix ''${{'' (drop i script) \<longrightarrow> (\<exists>j>i. prefix ''}}'' (drop j script))"
  proof (intro allI impI)
    fix i assume p: "prefix ''${{'' (drop i script)"
    then have "i < length script" by (rule prefix_drop_less)
    with c p have "list_ex (\<lambda>j. prefix ''}}'' (drop j script)) [i + 1 ..< length script]"
      unfolding expressions_closed_def list_all_iff by simp
    then obtain j where "j \<in> set [i + 1 ..< length script]" "prefix ''}}'' (drop j script)"
      unfolding list_ex_iff by blast
    then have "j > i \<and> prefix ''}}'' (drop j script)" by simp
    then show "\<exists>j>i. prefix ''}}'' (drop j script)" by blast
  qed
next
  assume a: "\<forall>i. prefix ''${{'' (drop i script) \<longrightarrow> (\<exists>j>i. prefix ''}}'' (drop j script))"
  have "list_ex (\<lambda>j. prefix ''}}'' (drop j script)) [i + 1 ..< length script]"
    if "prefix ''${{'' (drop i script)" for i
  proof -
    from a that obtain j where j: "j > i" "prefix ''}}'' (drop j script)" by blast
    from j(2) have "j < length script" by (rule prefix_drop_less)
    with j have "j \<in> set [i + 1 ..< length script]" by simp
    with j(2) show ?thesis unfolding list_ex_iff by blast
  qed
  then show "expressions_closed script"
    unfolding expressions_closed_def list_all_iff by blast
qed

lemma expressions_closed_drop:
  assumes "expressions_closed script"
  shows "expressions_closed (drop k script)"
  unfolding expressions_closed_iff
proof (intro allI impI)
  fix i assume "prefix ''${{'' (drop i (drop k script))"
  then have "prefix ''${{'' (drop (i + k) script)" by simp
  with assms obtain j where j: "j > i + k" "prefix ''}}'' (drop j script)"
    unfolding expressions_closed_iff by blast
  then have "j - k > i" "prefix ''}}'' (drop (j - k) (drop k script))" by simp_all
  then show "\<exists>j>i. prefix ''}}'' (drop j (drop k script))" by blast
qed

lemma slice_variable:
  assumes "strings_Index script ''${{'' = Some s"
    and "strings_Index (drop s script) ''}}'' = Some e"
  shows "3 \<le> e" and "slice script (s + 3) (s + e) = Some (take (e - 3) (drop (s + 3) script))"
    and "strings_Index (drop (s + 3) script) ''}}'' = Some (e - 3)"
proof -
  from assms(1) have op: "prefix ''${{'' (drop s script)" using Index_Some by blast
  from close_after_open[OF op] assms(2)
  obtain e' where e': "strings_Index (drop 3 (drop s script)) ''}}'' = Some e'" "e = 3 + e'"
    by (cases "strings_Index (drop 3 (drop s script)) ''}}''") auto
  show "3 \<le> e" using e' by simp
  from assms(2) have "e \<le> length (drop s script)" using Index_Some by blast
  then have "s + e \<le> length script" using \<open>3 \<le> e\<close> by simp
  then show "slice script (s + 3) (s + e) = Some (take (e - 3) (drop (s + 3) script))"
    using \<open>3 \<le> e\<close> by (simp add: slice_def)
  show "strings_Index (drop (s + 3) script) ''}}'' = Some (e - 3)"
    using e' by (simp add: add.commute)
qed

lemma no_close_after_open:
  assumes "strings_Index script ''${{'' = Some s"
  shows "strings_Index (drop s script) ''}}'' = None
     \<longleftrightarrow> strings_Index (drop (s + 3) script) ''}}'' = None"
proof -
  from assms have op: "prefix ''${{'' (drop s script)" using Index_Some by blast
  show ?thesis using close_after_open[OF op] by (simp add: add.commute)
qed

lemma scriptVariables_closed:
  "expressions_closed script \<Longrightarrow> snd (scriptVariables script) = None"
proof (induction script rule: scriptVariables.induct)
  case (1 script)
  show ?case
  proof (cases "strings_Index script ''${{''")
    case None
    then show ?thesis by (subst scriptVariables.simps) simp
  next
    case (Some s)
    then have op: "prefix ''${{'' (drop s script)" using Index_Some by blast
    with "1.prems" obtain j where j: "j > s" "prefix ''}}'' (drop j script)"
      unfolding expressions_closed_iff by blast
    have "strings_Index (drop s script) ''}}'' \<noteq> None"
    proof
      assume "strings_Index (drop s script) ''}}'' = None"
      moreover have "j - s \<le> length (drop s script)"
        using prefix_drop_less[OF j(2)] j(1) by simp
      ultimately have "\<not> prefix ''}}'' (drop (j - s) (drop s script))"
        unfolding Index_None_drop by blast
      with j show False by simp
    qed
    then obtain e where e: "strings_Index (drop s script) ''}}'' = Some e" by blast
    note sl = slice_variable[OF Some e]
    have "expressions_closed (drop (s + e) script)"
      using "1.prems" by (rule expressions_closed_drop)
    then have "snd (scriptVariables (drop (s + e) script)) = None"
      using "1.IH"[OF Some e sl(2)] by simp
    then show ?thesis
      by (subst scriptVariables.simps) (simp add: Some e sl(2) case_prod_beta)
  qed
qed

lemma scriptVariables_skip_close:
  assumes "prefix ''}}'' r"
  shows "scriptVariables (drop 2 r) = scriptVariables r"
proof (cases "strings_Index (drop 2 r) ''${{''")
  case None
  with open_after_close[OF assms] have "strings_Index r ''${{'' = None" by simp
  with None show ?thesis
    by (subst scriptVariables.simps, subst (2) scriptVariables.simps) simp
next
  case (Some s2)
  with open_after_close[OF assms] have s: "strings_Index r ''${{'' = Some (2 + s2)" by simp
  have d: "drop (2 + s2) r = drop s2 (drop 2 r)" by (simp add: add.commute)
  from assms obtain w where "r = ''}}'' @ w" unfolding prefix_def by blast
  then have len: "length r = length (drop 2 r) + 2" by simp
  have sl: "slice r (2 + s2 + 3) (2 + s2 + e) = slice (drop 2 r) (s2 + 3) (s2 + e)" for e
    unfolding slice_def len by (simp add: add.commute add.left_commute)
  have dr: "drop (2 + s2 + e) r = drop (s2 + e) (drop 2 r)" for e
    by (simp add: add.commute add.left_commute)
  show ?thesis
    by (subst scriptVariables.simps, subst (2) scriptVariables.simps)
      (simp only: Some s option.case d sl dr)
qed

lemma reference_scan_scriptVariables:
  "reference_scan script =
     (case scriptVariables script of (vs, None) \<Rightarrow> Some vs | (vs, Some e) \<Rightarrow> None)"
proof (induction script rule: reference_scan.induct)
  case (1 script)
  show ?case
  proof (cases "strings_Index script ''${{''")
    case None
    then show ?thesis
      by (subst reference_scan.simps, subst scriptVariables.simps) simp
  next
    case (Some s)
    show ?thesis
    proof (cases "strings_Index (drop (s + 3) script) ''}}''")
      case None
      with no_close_after_open[OF Some] have "strings_Index (drop s script) ''}}'' = None"
        by simp
      with None Some show ?thesis
        by (subst reference_scan.simps, subst scriptVariables.simps) simp
    next
      case (Some e')
      note s = \<open>strings_Index script ''${{'' = Some s\<close>
      from close_after_open[of "drop s script"] s Some
      have e: "strings_Index (drop s script) ''}}'' = Some (e' + 3)"
        using Index_Some[OF s] by (simp add: add.commute)
      note sl = slice_variable[OF s e]
      have cl: "prefix ''}}'' (drop (s + (e' + 3)) script)"
        using Index_Some[OF e] by (simp add: add.commute)
      have next_eq: "drop (e' + 2) (drop (s + 3) script) = drop 2 (drop (s + (e' + 3)) script)"
        by (simp add: add.commute add.left_commute)
      have ih: "reference_scan (drop (e' + 2) (drop (s + 3) script)) =
          (case scriptVariables (drop (s + (e' + 3)) script) of
             (vs, None) \<Rightarrow> Some vs | (vs, Some e) \<Rightarrow> None)"
        using "1.IH"[OF s Some] unfolding next_eq scriptVariables_skip_close[OF cl] .
      let ?v = "take e' (drop (s + 3) script)"
      have L: "reference_scan script =
          map_option ((#) ?v) (reference_scan (drop (e' + 2) (drop (s + 3) script)))"
        by (subst reference_scan.simps) (simp only: s Some option.case)
      have "slice script (s + 3) (s + (e' + 3)) = Some ?v" using sl(2) by simp
      then have R: "scriptVariables script =
          (case scriptVariables (drop (s + (e' + 3)) script) of (vs, r) \<Rightarrow> (?v # vs, r))"
        by (subst scriptVariables.simps) (simp only: s e option.case)
      show ?thesis
        unfolding L R ih
        by (cases "scriptVariables (drop (s + (e' + 3)) script)") (auto split: option.splits)
    qed
  qed
qed

lemma checkVariablesInScript_scriptVariables:
  "checkVariablesInScript env script pos job path pdata =
     (pdata @ map (scriptFinding env pos job path)
        (filter containsUntrustedContextPattern (fst (scriptVariables script))),
      snd (scriptVariables script))"
proof (induction env script pos job path pdata rule: checkVariablesInScript.induct)
  case (1 env script pos job path pdata)
  show ?case
  proof (cases "strings_Index script ''${{''")
    case None
    then show ?thesis
      by (subst checkVariablesInScript.simps, subst (1 2) scriptVariables.simps) simp
  next
    case (Some s)
    show ?thesis
    proof (cases "strings_Index (drop s script) ''}}''")
      case None
      with Some show ?thesis
        by (subst checkVariablesInScript.simps, subst (1 2) scriptVariables.simps) simp
    next
      case (Some e)
      note s = \<open>strings_Index script ''${{'' = Some s\<close>
      note sl = slice_variable[OF s Some]
      show ?thesis
        by (subst checkVariablesInScript.simps, subst (1 2) scriptVariables.simps)
          (simp add: s Some sl(2) "1.IH"[OF s Some sl(2)] case_prod_beta)
    qed
  qed
qed

definition unterminated_expression :: "string \<Rightarrow> bool" where
  "unterminated_expression script =
     list_ex (\<lambda>i. prefix ''${{'' (drop i script) \<and>
                 \<not> list_ex (\<lambda>j. prefix ''}}'' (drop j script)) [i + 1 ..< length script])
       [0 ..< length script]"

lemma unterminated_expression_iff:
  "unterminated_expression script \<longleftrightarrow>
     (\<exists>i. prefix ''${{'' (drop i script) \<and> (\<forall>j>i. \<not> prefix ''}}'' (drop j script)))"
proof -
  have "unterminated_expression script \<longleftrightarrow> \<not> expressions_closed script"
    unfolding unterminated_expression_def expressions_closed_def list_ex_iff list_all_iff
    by blast
  then show ?thesis unfolding expressions_closed_iff by blast
qed

lemma scriptVariables_unterminated:
  "unterminated_expression script \<Longrightarrow> snd (scriptVariables script) = Some ErrInvalidGitHubWorkflow"
proof (induction script rule: scriptVariables.induct)
  case (1 script)
  from "1.prems" obtain i where i: "prefix ''${{'' (drop i script)"
      "\<forall>j>i. \<not> prefix ''}}'' (drop j script)"
    unfolding unterminated_expression_iff by blast
  have il: "i \<le> length script" using prefix_drop_less[OF i(1)] by simp
  show ?case
  proof (cases "strings_Index script ''${{''")
    case None
    with i(1) il show ?thesis unfolding Index_None_drop by blast
  next
    case (Some s)
    show ?thesis
    proof (cases "strings_Index (drop s script) ''}}''")
      case None
      with Some show ?thesis by (subst scriptVariables.simps) simp
    next
      case (Some e)
      note s = \<open>strings_Index script ''${{'' = Some s\<close>
      note sl = slice_variable[OF s Some]
      have cl: "prefix ''}}'' (drop (s + e) script)"
        using Index_Some[OF Some] by (simp add: add.commute)
      have "\<not> i < s + e" using i(2) cl by blast
      moreover have "i \<noteq> s + e"
      proof
        assume "i = s + e"
        with i(1) cl have "prefix ''${{'' (drop (s + e) script)" by simp
        with close_not_open[OF cl, of 0] show False by simp
      qed
      ultimately have gt: "s + e < i" by linarith
      let ?r = "drop (s + e) script"
      have "prefix ''${{'' (drop (i - (s + e)) ?r)" using i(1) gt by simp
      moreover have "\<not> prefix ''}}'' (drop j ?r)" if "j > i - (s + e)" for j
      proof -
        from that gt have "j + (s + e) > i" by linarith
        with i(2) have "\<not> prefix ''}}'' (drop (j + (s + e)) script)" by blast
        then show ?thesis by simp
      qed
      ultimately have "unterminated_expression ?r"
        unfolding unterminated_expression_iff by blast
      then have "snd (scriptVariables ?r) = Some ErrInvalidGitHubWorkflow"
        using "1.IH"[OF s Some sl(2)] by simp
      then show ?thesis
        by (subst scriptVariables.simps) (simp add: s Some sl(2) case_prod_beta)
    qed
  qed
qed

lemma scriptVariables_first_unterminated:
  assumes "strings_Index script ''${{'' = Some s" "strings_Index (drop s script) ''}}'' = None"
  shows "scriptVariables script = ([], Some ErrInvalidGitHubWorkflow)"
  by (subst scriptVariables.simps) (simp add: assms)

text \<open>
  Claim C8. In a script where every opening delimiter is followed by a closing one, the
  expressions the scanner extracts are, in order, those of the reference algorithm,
  and the scanner reports the risky ones among them without error.
\<close>

theorem scanner_refines_reference:
  assumes "expressions_closed script"
  shows "\<exists>vs. reference_scan script = Some vs \<and> scriptVariables script = (vs, None)
     \<and> checkVariablesInScript env script pos job path pdata =
         (pdata @ map (scriptFinding env pos job path)
            (filter containsUntrustedContextPattern vs), None)"
proof -
  obtain vs r where vr: "scriptVariables script = (vs, r)" by (cases "scriptVariables script")
  with scriptVariables_closed[OF assms] have r: "r = None" by simp
  have "reference_scan script = Some vs"
    unfolding reference_scan_scriptVariables vr r by simp
  moreover have "checkVariablesInScript env script pos job path pdata =
      (pdata @ map (scriptFinding env pos job path)
         (filter containsUntrustedContextPattern vs), None)"
    unfolding checkVariablesInScript_scriptVariables vr r by simp
  ultimately show ?thesis using vr r by blast
qed

theorem scanner_refines_reference_witness:
  "expressions_closed ''echo ${{ github.event.issue.title }} ${{github.sha}}''
   \<and> reference_scan ''echo ${{ github.event.issue.title }} ${{github.sha}}''
       = Some ['' github.event.issue.title '', ''github.sha'']
   \<and> scriptVariables ''echo ${{ github.event.issue.title }} ${{github.sha}}''
       = (['' github.event.issue.title '', ''github.sha''], None)"
proof -
  let ?s = "''echo ${{ github.event.issue.title }} ${{github.sha}}''"
  have h: "expressions_closed ?s" by code_simp
  have r: "reference_scan ?s = Some ['' github.event.issue.title '', ''github.sha'']"
    by code_simp
  from scanner_refines_reference[OF h, of exampleEnv None None "[]" "[]"] r have
    "scriptVariables ?s = (['' github.event.issue.title '', ''github.sha''], None)"
    by auto
  with h r show ?thesis by blast
qed

definition exampleJob :: Job where
  "exampleJob = \<lparr>ID = Some \<lparr>Value = ''build'', StrPos = None\<rparr>, Name = None, Steps = []\<rparr>"

definition unterminatedStep :: Step where
  "unterminatedStep =
     \<lparr>Exec = Some (ExecRun (Some \<lparr>Value = ''${{github.head_ref}}${{'', StrPos = Some (7, 9)\<rparr>)),
      Pos = Some (6, 7)\<rparr>"

text \<open>
  Claim C4, amended. A script step whose body has an opening delimiter with no closing
  delimiter after it ends the analysis with the error of an invalid workflow. The
  findings of the risky expressions that were closed before the failure stay in the
  result, after its earlier content; when the first opening delimiter of the body is
  the one that is not closed, the result is unchanged.
\<close>

theorem unterminated_expression_fails:
  assumes "Exec st = Some (ExecRun (Some run))" and "unterminated_expression (Value run)"
  shows "snd (scriptStep env job path (Some st) pdata) = Some ErrInvalidGitHubWorkflow
    \<and> fst (scriptStep env job path (Some st) pdata) =
        pdata @ map (scriptFinding env (StrPos run) (Some job) path)
          (filter containsUntrustedContextPattern (fst (scriptVariables (Value run))))
    \<and> ((\<exists>s. strings_Index (Value run) ''${{'' = Some s
            \<and> strings_Index (drop s (Value run)) ''}}'' = None)
        \<longrightarrow> fst (scriptStep env job path (Some st) pdata) = pdata)"
proof -
  have step: "scriptStep env job path (Some st) pdata =
      checkVariablesInScript env (Value run) (StrPos run) (Some job) path pdata"
    unfolding scriptStep_def using assms(1) by simp
  show ?thesis
    unfolding step checkVariablesInScript_scriptVariables
    using scriptVariables_unterminated[OF assms(2)]
    by (auto simp: scriptVariables_first_unterminated)
qed

theorem unterminated_expression_fails_witness:
  "Exec unterminatedStep = Some (ExecRun (Some \<lparr>Value = ''${{github.head_ref}}${{'', StrPos = Some (7, 9)\<rparr>))
   \<and> unterminated_expression ''${{github.head_ref}}${{''
   \<and> snd (scriptStep exampleEnv exampleJob ''ci.yml'' (Some unterminatedStep) [])
       = Some ErrInvalidGitHubWorkflow"
proof -
  let ?run = "\<lparr>Value = ''${{github.head_ref}}${{'', StrPos = Some (7, 9)\<rparr>"
  have e: "Exec unterminatedStep = Some (ExecRun (Some ?run))"
    by (simp add: unterminatedStep_def)
  have u: "unterminated_expression (Value ?run)" by code_simp
  from unterminated_expression_fails[OF e u, of exampleEnv exampleJob "''ci.yml''" "[]"] 
  have "snd (scriptStep exampleEnv exampleJob ''ci.yml'' (Some unterminatedStep) [])
       = Some ErrInvalidGitHubWorkflow" by blast
  with e u show ?thesis by simp
qed

text \<open>
  Claim C4 as the specification states it, that the result is unchanged by such a
  step, fails on a body whose first expression is closed and risky.
\<close>

theorem unterminated_expression_counterexample:
  "Exec unterminatedStep = Some (ExecRun (Some \<lparr>Value = ''${{github.head_ref}}${{'', StrPos = Some (7, 9)\<rparr>))
   \<and> unterminated_expression ''${{github.head_ref}}${{''
   \<and> scriptStep exampleEnv exampleJob ''ci.yml'' (Some unterminatedStep) [] =
       ([\<lparr>Job = Some \<lparr>JobName = None, JobID = Some ''build''\<rparr>,
          Type = DangerousWorkflowScriptInjection,
          File = \<lparr>Path = ''ci.yml'', FileType = FileTypeSource, Offset = 7,
                   Snippet = ''github.head_ref''\<rparr>\<rparr>],
        Some ErrInvalidGitHubWorkflow)"
proof -
  have "Exec unterminatedStep =
      Some (ExecRun (Some \<lparr>Value = ''${{github.head_ref}}${{'', StrPos = Some (7, 9)\<rparr>))"
    by (simp add: unterminatedStep_def)
  moreover have "unterminated_expression ''${{github.head_ref}}${{''" by code_simp
  moreover have "scriptStep exampleEnv exampleJob ''ci.yml'' (Some unterminatedStep) [] =
       ([\<lparr>Job = Some \<lparr>JobName = None, JobID = Some ''build''\<rparr>,
          Type = DangerousWorkflowScriptInjection,
          File = \<lparr>Path = ''ci.yml'', FileType = FileTypeSource, Offset = 7,
                   Snippet = ''github.head_ref''\<rparr>\<rparr>],
        Some ErrInvalidGitHubWorkflow)"
    by code_simp
  ultimately show ?thesis by (intro conjI)
qed

text \<open>
  The script of the signing step of the workflow \<open>publishimage\<close> of the repository
  itself: two expressions, neither of them risky.
\<close>

lemma publishimage_sign_script:
  "checkVariablesInScript exampleEnv
     ''cosign sign ghcr.io/${{github.repository_owner}}/scorecard/v4:${{ github.sha }}''
     (Some (66, 8)) (Some exampleJob) ''.github/workflows/publishimage.yml'' [] = ([], None)
   \<and> scriptVariables
     ''cosign sign ghcr.io/${{github.repository_owner}}/scorecard/v4:${{ github.sha }}''
     = ([''github.repository_owner'', '' github.sha ''], None)"
  by code_simp

section \<open>The untrusted checkout analyser\<close>

text \<open>
  The findings as the specification words them: a step is an untrusted checkout when it
  is an action reference that contains \<open>actions/checkout\<close> and has a \<open>ref\<close>
  input whose value contains \<open>github.event.pull_request\<close> or
  \<open>github.event.workflow_run\<close>; each such step gives one finding whose snippet is
  that value, and only under one of the two triggers.
\<close>

definition untrustedCheckoutRef :: "Step \<Rightarrow> string option" where
  "untrustedCheckoutRef st =
     (case Exec st of
        Some (ExecAction (Some reference) inputs) \<Rightarrow>
          if strings_Contains (Value reference) ''actions/checkout''
          then (case inputs ''ref'' of
                  Some input \<Rightarrow>
                    (case InputValue input of
                       Some v \<Rightarrow>
                         if strings_Contains (Value v) ''github.event.pull_request''
                            \<or> strings_Contains (Value v) ''github.event.workflow_run''
                         then Some (Value v) else None
                     | None \<Rightarrow> None)
                | None \<Rightarrow> None)
          else None
      | _ \<Rightarrow> None)"

definition checkoutFinding :: "Env \<Rightarrow> Job \<Rightarrow> string \<Rightarrow> Step \<Rightarrow> string \<Rightarrow> DangerousWorkflow" where
  "checkoutFinding env job path st v =
     \<lparr>Job = createJob (Some job),
      Type = DangerousWorkflowUntrustedCheckout,
      File = \<lparr>Path = path, FileType = FileTypeSource,
        Offset = GetLineNumber env (Pos st), Snippet = v\<rparr>\<rparr>"

definition stepCheckoutFindings :: "Env \<Rightarrow> Job \<Rightarrow> string \<Rightarrow> Step option \<Rightarrow> DangerousWorkflow list" where
  "stepCheckoutFindings env job path step =
     (case step of
        None \<Rightarrow> []
      | Some st \<Rightarrow>
          (case untrustedCheckoutRef st of
             None \<Rightarrow> []
           | Some v \<Rightarrow> [checkoutFinding env job path st v]))"

definition jobCheckoutFindings :: "Env \<Rightarrow> string \<Rightarrow> Job option \<Rightarrow> DangerousWorkflow list" where
  "jobCheckoutFindings env path job =
     (case job of
        None \<Rightarrow> []
      | Some j \<Rightarrow> concat (map (stepCheckoutFindings env j path) (Steps j)))"

definition checkoutFindings :: "Env \<Rightarrow> Workflow \<Rightarrow> string \<Rightarrow> DangerousWorkflow list" where
  "checkoutFindings env workflow path =
     (if ''pull_request_target'' \<in> set (On workflow) \<or> ''workflow_run'' \<in> set (On workflow)
      then concat (map (jobCheckoutFindings env path) (Jobs workflow))
      else [])"

lemma eventLoop_iff: "eventLoop events name \<longleftrightarrow> name \<in> set events"
  by (induction events) auto

lemma checkoutStep_findings:
  "checkoutStep env job path step pdata = pdata @ stepCheckoutFindings env job path step"
  unfolding checkoutStep_def stepCheckoutFindings_def untrustedCheckoutRef_def
    checkoutFinding_def checkoutUntrustedPullRequestRef_def checkoutUntrustedWorkflowRunRef_def
  by (simp split: option.splits Exec.splits)

lemma checkoutSteps_findings:
  "checkoutSteps env job path steps pdata =
     pdata @ concat (map (stepCheckoutFindings env job path) steps)"
  by (induction steps arbitrary: pdata) (simp_all add: checkoutStep_findings)

lemma checkJob_findings:
  "checkJobForUntrustedCodeCheckout env job path pdata =
     (pdata @ jobCheckoutFindings env path job, None)"
  unfolding checkJobForUntrustedCodeCheckout_def jobCheckoutFindings_def
  by (simp add: checkoutSteps_findings split: option.splits)

lemma checkoutJobs_findings:
  "checkoutJobs env path jobs pdata =
     (pdata @ concat (map (jobCheckoutFindings env path) jobs), None)"
  by (induction jobs arbitrary: pdata) (simp_all add: checkJob_findings)

text \<open>
  Claim C2. The analyser never fails, and it appends exactly the findings of the
  untrusted checkout steps, one for each, in the order of the jobs and steps; it
  appends nothing without a \<open>pull_request_target\<close> or \<open>workflow_run\<close> trigger.
\<close>

theorem validateUntrustedCodeCheckout_findings:
  "validateUntrustedCodeCheckout env workflow path pdata =
     (pdata @ checkoutFindings env workflow path, None)"
  unfolding validateUntrustedCodeCheckout_def checkoutFindings_def usesEventTrigger_def
    eventLoop_iff triggerPullRequestTarget_def triggerWorkflowRun_def
  by (simp add: checkoutJobs_findings)

definition checkoutStepA :: Step where
  "checkoutStepA =
     \<lparr>Exec = Some (ExecAction (Some \<lparr>Value = ''actions/checkout@v3'', StrPos = None\<rparr>)
        [''ref'' \<mapsto> \<lparr>InputName = Some \<lparr>Value = ''ref'', StrPos = None\<rparr>,
                     InputValue = Some \<lparr>Value = ''${{ github.event.pull_request.head.sha }}'',
                                          StrPos = None\<rparr>\<rparr>]),
      Pos = Some (12, 9)\<rparr>"

definition workflowA :: Workflow where
  "workflowA =
     \<lparr>On = [''pull_request_target''],
      Jobs = [Some \<lparr>ID = Some \<lparr>Value = ''build'', StrPos = None\<rparr>, Name = None,
                   Steps = [Some checkoutStepA]\<rparr>]\<rparr>"

theorem validateUntrustedCodeCheckout_findings_witness:
  "validateUntrustedCodeCheckout exampleEnv workflowA ''ci.yml'' [] =
     ([\<lparr>Job = Some \<lparr>JobName = None, JobID = Some ''build''\<rparr>,
        Type = DangerousWorkflowUntrustedCheckout,
        File = \<lparr>Path = ''ci.yml'', FileType = FileTypeSource, Offset = 12,
                 Snippet = ''${{ github.event.pull_request.head.sha }}''\<rparr>\<rparr>], None)
   \<and> validateUntrustedCodeCheckout exampleEnv (workflowA\<lparr>On := [''push'']\<rparr>) ''ci.yml'' [] = ([], None)"
proof -
  have "checkoutFindings exampleEnv workflowA ''ci.yml'' =
     [\<lparr>Job = Some \<lparr>JobName = None, JobID = Some ''build''\<rparr>,
       Type = DangerousWorkflowUntrustedCheckout,
       File = \<lparr>Path = ''ci.yml'', FileType = FileTypeSource, Offset = 12,
                Snippet = ''${{ github.event.pull_request.head.sha }}''\<rparr>\<rparr>]"
    by code_simp
  moreover have "checkoutFindings exampleEnv (workflowA\<lparr>On := [''push'']\<rparr>) ''ci.yml'' = []"
    by code_simp
  ultimately show ?thesis by (simp only: validateUntrustedCodeCheckout_findings append_Nil simp_thms)
qed

section \<open>The reachability cache\<close>





text \<open>
  A lookup that fails inside \<open>checkImposterCommit\<close> returns the error, and the value
  \<open>false\<close> that came with it is stored under the pair: the next lookup of the pair
  returns \<open>false\<close> without error and without a remote call.
\<close>

lemma revisionLoop_error_false:
  "fst (revisionLoop env c pre target names log) = Some (b, Some e) \<Longrightarrow> b = False"
  by (induction names arbitrary: log) (auto split: sum.splits if_splits)

lemma checkImposterCommit_error_false:
  assumes "checkImposterCommit env c target log = ((b, Some e), log')"
  shows "b = False"
proof -
  have "b = False" if "revisionLoop env c pre target names l = (Some (b, Some e), l')"
    for pre names l l'
    using revisionLoop_error_false[of env c pre target names l b e] that by simp
  with assms show ?thesis
    unfolding checkImposterCommit_def
    by (auto split: sum.splits prod.splits option.splits)
qed

lemma Contains_failure_cached:
  assumes "entries (repo, sha) = None"
    and "MakeGithubRepo env repo = Inr gh"
    and "NewClient env log gh = Inr c"
    and "checkImposterCommit env c sha (log @ [CallNewClient gh]) = ((b, Some e), log')"
  shows "Contains env entries repo sha log = ((False, Some e), entries((repo, sha) \<mapsto> False), log')
    \<and> Contains env (entries((repo, sha) \<mapsto> False)) repo sha log' =
        ((False, None), entries((repo, sha) \<mapsto> False), log')"
proof -
  have "b = False" using assms(4) by (rule checkImposterCommit_error_false)
  with assms show ?thesis by (simp add: Contains_def)
qed

text \<open>
  A client whose first listing of branches fails and whose later calls succeed.
\<close>

definition flakyEnv :: Env where
  "flakyEnv =
     exampleEnv\<lparr>ListBranches :=
       (\<lambda>history c. if CallListBranches c \<in> set history then Inr [''main'']
                   else Inl (ClientError ''timeout''))\<rparr>"

text \<open>
  Claim C1 asks that a failed lookup leave nothing in the cache, so that the next one
  asks the remote side again. With the client above the first lookup returns the
  error, the cache then holds \<open>false\<close> for the pair, and the second lookup answers
  \<open>false\<close> from it with no remote call, where a lookup on a cache without the entry
  would find the revision on the branch.
\<close>

theorem Contains_remembers_failure:
  "Contains flakyEnv Map.empty ''acme/build-action'' ''1234'' [] =
     ((False, Some (ClientError ''timeout'')),
      [(''acme/build-action'', ''1234'') \<mapsto> False],
      [CallNewClient ''acme/build-action'', CallListBranches ''acme/build-action''])
   \<and> Contains flakyEnv [(''acme/build-action'', ''1234'') \<mapsto> False]
        ''acme/build-action'' ''1234''
        [CallNewClient ''acme/build-action'', CallListBranches ''acme/build-action''] =
     ((False, None),
      [(''acme/build-action'', ''1234'') \<mapsto> False],
      [CallNewClient ''acme/build-action'', CallListBranches ''acme/build-action''])
   \<and> fst (Contains flakyEnv Map.empty ''acme/build-action'' ''1234''
        [CallNewClient ''acme/build-action'', CallListBranches ''acme/build-action'']) =
     (True, None)"
  by (simp add: Contains_def checkImposterCommit_def flakyEnv_def exampleEnv_def)

section \<open>The imposter commit detector\<close>

lemma strings_Split_nonempty: "strings_Split s c \<noteq> []"
  by (induction s) (auto split: list.splits)

lemma length_strings_Split: "length (strings_Split s c) = Suc (count_list s c)"
proof (induction s)
  case Nil
  then show ?case by simp
next
  case (Cons x xs)
  then show ?case
    using strings_Split_nonempty[of xs c] by (cases "strings_Split xs c") auto
qed

lemma strings_Split_no_sep: "c \<notin> set s \<Longrightarrow> strings_Split s c = [s]"
  by (induction s) auto

lemma strings_Split_one_sep:
  "c \<notin> set a \<Longrightarrow> c \<notin> set b \<Longrightarrow> strings_Split (a @ c # b) c = [a, b]"
  by (induction a) (auto simp: strings_Split_no_sep)

lemma strings_Split_two:
  "strings_Split s c = [a, b] \<Longrightarrow> s = a @ c # b \<and> c \<notin> set a \<and> c \<notin> set b"
proof (induction s arbitrary: a)
  case Nil
  then show ?case by simp
next
  case (Cons x xs)
  show ?case
  proof (cases "x = c")
    case True
    with Cons.prems have a: "a = []" and b: "strings_Split xs c = [b]" by auto
    from b have "count_list xs c = 0" using length_strings_Split[of xs c] by simp
    then have "c \<notin> set xs" by (simp add: count_list_0_iff)
    with b have "xs = b" by (simp add: strings_Split_no_sep)
    with True a \<open>c \<notin> set xs\<close> show ?thesis by simp
  next
    case False
    with Cons.prems obtain p where p: "strings_Split xs c = [p, b]" "a = x # p"
      by (auto split: list.splits)
    from Cons.IH[OF p(1)] False p(2) show ?thesis by simp
  qed
qed

text \<open>
  A client that answers every call about one repository, and always in the same way:
  the lookup then says whether the revision is reachable from a branch or a tag.
\<close>

lemma revisionLoop_answers:
  assumes "\<And>cs base. ContainsRevision env cs c base target = Inr (reach base)"
  shows "fst (revisionLoop env c pre target names log) =
     (if \<exists>n\<in>set names. reach (pre @ n) then Some (True, None) else None)"
  by (induction names arbitrary: log) (simp_all add: assms)

lemma checkImposterCommit_answers:
  assumes "\<And>cs. ListBranches env cs c = Inr branches"
    and "\<And>cs. ListTags env cs c = Inr tags"
    and cr: "\<And>cs base. ContainsRevision env cs c base target = Inr (reach base)"
  shows "fst (checkImposterCommit env c target log) =
     ((\<exists>b\<in>set branches. reach (''refs/heads/'' @ b))
        \<or> (\<exists>t\<in>set tags. reach (''refs/tags/'' @ t)), None)"
proof -
  let ?l1 = "log @ [CallListBranches c]"
  obtain r1 l1 where r1: "revisionLoop env c ''refs/heads/'' target branches ?l1 = (r1, l1)"
    by (cases "revisionLoop env c ''refs/heads/'' target branches ?l1")
  have f1: "r1 = (if \<exists>n\<in>set branches. reach (''refs/heads/'' @ n) then Some (True, None) else None)"
    using revisionLoop_answers[of env c target reach "''refs/heads/''" branches ?l1, OF cr] r1
    by simp
  let ?l2 = "l1 @ [CallListTags c]"
  obtain r2 l2 where r2: "revisionLoop env c ''refs/tags/'' target tags ?l2 = (r2, l2)"
    by (cases "revisionLoop env c ''refs/tags/'' target tags ?l2")
  have f2: "r2 = (if \<exists>n\<in>set tags. reach (''refs/tags/'' @ n) then Some (True, None) else None)"
    using revisionLoop_answers[of env c target reach "''refs/tags/''" tags ?l2, OF cr] r2
    by simp
  show ?thesis
    unfolding checkImposterCommit_def
    by (simp add: assms(1,2) r1 r2 f1 f2)
qed

lemma Contains_answers:
  assumes "MakeGithubRepo env repo = Inr gh"
    and "\<And>cs. NewClient env cs gh = Inr c"
    and lb: "\<And>cs. ListBranches env cs c = Inr branches"
    and lt: "\<And>cs. ListTags env cs c = Inr tags"
    and cr: "\<And>cs base. ContainsRevision env cs c base sha = Inr (reach base)"
    and "entries (repo, sha) = None \<or> entries (repo, sha) =
           Some ((\<exists>b\<in>set branches. reach (''refs/heads/'' @ b))
                  \<or> (\<exists>t\<in>set tags. reach (''refs/tags/'' @ t)))"
  shows "fst (Contains env entries repo sha log) =
     ((\<exists>b\<in>set branches. reach (''refs/heads/'' @ b))
        \<or> (\<exists>t\<in>set tags. reach (''refs/tags/'' @ t)), None)"
proof (cases "entries (repo, sha)")
  case None
  obtain r l where c: "checkImposterCommit env c sha (log @ [CallNewClient gh]) = (r, l)"
    by (cases "checkImposterCommit env c sha (log @ [CallNewClient gh])")
  with checkImposterCommit_answers[of env c branches tags sha reach "log @ [CallNewClient gh]",
      OF lb lt cr]
  have "r = ((\<exists>b\<in>set branches. reach (''refs/heads/'' @ b))
        \<or> (\<exists>t\<in>set tags. reach (''refs/tags/'' @ t)), None)" by simp
  with None c show ?thesis
    unfolding Contains_def by (simp add: assms(1,2))
next
  case (Some v)
  with assms(6) show ?thesis by (simp add: Contains_def)
qed

definition emptyWalk :: walk where
  "emptyWalk = \<lparr>cache = Map.empty, calls = [], Workflows = []\<rparr>"

definition pinnedStep :: "string \<Rightarrow> Step" where
  "pinnedStep reference =
     \<lparr>Exec = Some (ExecAction (Some \<lparr>Value = reference, StrPos = None\<rparr>) Map.empty),
      Pos = Some (9, 7)\<rparr>"

text \<open>
  Claim C3. Take a step whose reference, without the prefix \<open>actions://\<close>, is
  \<open>repo@sha\<close>, a client that answers the calls about \<open>repo\<close>, and a cache that
  holds nothing for the pair or the right answer. If the revision is reachable from a
  branch, the step adds no finding; if it is reachable from no branch and no tag, the
  step adds one finding of type imposter reference whose snippet is \<open>repo@sha\<close>.
  In both cases the step ends without error.
\<close>

theorem imposterStep_reachability:
  assumes "Exec st = Some (ExecAction (Some u) inputs)"
    and "strings_Split (strings_TrimPrefix (Value u) ''actions://'') (CHR ''@'') = [repo, sha]"
    and "MakeGithubRepo env repo = Inr gh"
    and "\<And>cs. NewClient env cs gh = Inr c"
    and "\<And>cs. ListBranches env cs c = Inr branches"
    and "\<And>cs. ListTags env cs c = Inr tags"
    and "\<And>cs base. ContainsRevision env cs c base sha = Inr (reach base)"
    and "cache w (repo, sha) = None \<or> cache w (repo, sha) =
           Some ((\<exists>b\<in>set branches. reach (''refs/heads/'' @ b))
                  \<or> (\<exists>t\<in>set tags. reach (''refs/tags/'' @ t)))"
  shows "((\<exists>b\<in>set branches. reach (''refs/heads/'' @ b)) \<longrightarrow>
            snd (imposterStep env job path (Some st) w) = None
            \<and> Workflows (fst (imposterStep env job path (Some st) w)) = Workflows w)
    \<and> ((\<forall>b\<in>set branches. \<not> reach (''refs/heads/'' @ b))
          \<and> (\<forall>t\<in>set tags. \<not> reach (''refs/tags/'' @ t)) \<longrightarrow>
            snd (imposterStep env job path (Some st) w) = None
            \<and> Workflows (fst (imposterStep env job path (Some st) w)) =
                Workflows w @
                  [\<lparr>Job = createJob (Some job),
                    Type = DangerousWorkflowImposterReference,
                    File = \<lparr>Path = path, FileType = FileTypeSource,
                      Offset = GetLineNumber env (Pos st),
                      Snippet = repo @ ''@'' @ sha\<rparr>\<rparr>])"
proof -
  let ?reachable = "(\<exists>b\<in>set branches. reach (''refs/heads/'' @ b))
        \<or> (\<exists>t\<in>set tags. reach (''refs/tags/'' @ t))"
  let ?r = "strings_TrimPrefix (Value u) ''actions://''"
  obtain res entries' log' where
    c: "Contains env (cache w) repo sha (calls w) = (res, entries', log')"
    by (cases "Contains env (cache w) repo sha (calls w)")
  from Contains_answers[of env repo gh c branches tags sha reach "cache w" "calls w",
      OF assms(3-8)] c
  have res: "res = (?reachable, None)" by simp
  have r: "?r = repo @ ''@'' @ sha" using strings_Split_two[OF assms(2)] by simp
  have step: "imposterStep env job path (Some st) w =
      (if \<not> ?reachable
       then (w\<lparr>cache := entries', calls := log',
                Workflows := Workflows w @ [imposterFinding env job path st ?r]\<rparr>, None)
       else (w\<lparr>cache := entries', calls := log'\<rparr>, None))"
    unfolding imposterStep_def by (simp add: assms(1,2) c res Let_def)
  show ?thesis
    unfolding step by (auto simp: imposterFinding_def r)
qed

theorem imposterStep_reachability_witness:
  "snd (imposterStep exampleEnv exampleJob ''ci.yml''
          (Some (pinnedStep ''acme/build-action@deadbeef'')) emptyWalk) = None
   \<and> Workflows (fst (imposterStep exampleEnv exampleJob ''ci.yml''
          (Some (pinnedStep ''acme/build-action@deadbeef'')) emptyWalk)) =
       [\<lparr>Job = Some \<lparr>JobName = None, JobID = Some ''build''\<rparr>,
         Type = DangerousWorkflowImposterReference,
         File = \<lparr>Path = ''ci.yml'', FileType = FileTypeSource, Offset = 9,
                  Snippet = ''acme/build-action@deadbeef''\<rparr>\<rparr>]
   \<and> snd (imposterStep exampleEnv exampleJob ''ci.yml''
          (Some (pinnedStep ''actions://acme/build-action@1234'')) emptyWalk) = None
   \<and> Workflows (fst (imposterStep exampleEnv exampleJob ''ci.yml''
          (Some (pinnedStep ''actions://acme/build-action@1234'')) emptyWalk)) = []"
proof -
  let ?env = exampleEnv
  let ?repo = "''acme/build-action''"
  have mk: "MakeGithubRepo ?env ?repo = Inr ?repo" by (simp add: exampleEnv_def)
  have nc: "\<And>cs. NewClient ?env cs ?repo = Inr ?repo" by (simp add: exampleEnv_def)
  have lb: "\<And>cs. ListBranches ?env cs ?repo = Inr [''main'']" by (simp add: exampleEnv_def)
  have lt: "\<And>cs. ListTags ?env cs ?repo = Inr [''v1'']" by (simp add: exampleEnv_def)
  have em: "cache emptyWalk (?repo, sha) = None \<or> cache emptyWalk (?repo, sha) = Some x" for sha x
    by (simp add: emptyWalk_def)
  have job: "createJob (Some exampleJob) = Some \<lparr>JobName = None, JobID = Some ''build''\<rparr>"
    by (simp add: createJob_def exampleJob_def)
  have ln: "GetLineNumber ?env (Pos (pinnedStep r)) = 9" for r
    by (simp add: exampleEnv_def pinnedStep_def)
  \<comment> \<open>a revision on no branch and no tag\<close>
  have e1: "Exec (pinnedStep ''acme/build-action@deadbeef'') =
      Some (ExecAction (Some \<lparr>Value = ''acme/build-action@deadbeef'', StrPos = None\<rparr>) Map.empty)"
    by (simp add: pinnedStep_def)
  have s1: "strings_Split (strings_TrimPrefix
        (Value \<lparr>Value = ''acme/build-action@deadbeef'', StrPos = None\<rparr>) ''actions://'') (CHR ''@'')
      = [?repo, ''deadbeef'']"
    by (simp add: strings_TrimPrefix_def)
  have cr1: "\<And>cs base. ContainsRevision ?env cs ?repo base ''deadbeef'' = Inr ((\<lambda>b. False) base)"
    by (simp add: exampleEnv_def)
  note t1 = imposterStep_reachability[OF e1 s1 mk nc lb lt cr1 em, of exampleJob "''ci.yml''"]
  \<comment> \<open>a revision on the branch\<close>
  have e2: "Exec (pinnedStep ''actions://acme/build-action@1234'') =
      Some (ExecAction (Some \<lparr>Value = ''actions://acme/build-action@1234'', StrPos = None\<rparr>)
        Map.empty)"
    by (simp add: pinnedStep_def)
  have s2: "strings_Split (strings_TrimPrefix
        (Value \<lparr>Value = ''actions://acme/build-action@1234'', StrPos = None\<rparr>) ''actions://'')
        (CHR ''@'')
      = [?repo, ''1234'']"
    by (simp add: strings_TrimPrefix_def)
  have cr2: "\<And>cs base. ContainsRevision ?env cs ?repo base ''1234'' = Inr ((\<lambda>b. True) base)"
    by (simp add: exampleEnv_def)
  note t2 = imposterStep_reachability[OF e2 s2 mk nc lb lt cr2 em, of exampleJob "''ci.yml''"]
  from t1 t2 show ?thesis by (simp add: job ln emptyWalk_def)
qed

text \<open>
  The condition on the cache holds along a walk. A client is stateless when its answers
  do not depend on the calls made before; a cache is truthful when each of its entries
  is the answer of a lookup that starts from an empty cache. The walk starts from the
  empty cache, and with a stateless client every lookup that returns without error
  keeps the cache truthful.
\<close>

definition stateless :: "Env \<Rightarrow> bool" where
  "stateless env =
     (\<forall>cs cs'. NewClient env cs = NewClient env cs'
        \<and> ListBranches env cs = ListBranches env cs'
        \<and> ListTags env cs = ListTags env cs'
        \<and> ContainsRevision env cs = ContainsRevision env cs')"

definition truthful :: "Env \<Rightarrow> (commitKey \<rightharpoonup> bool) \<Rightarrow> bool" where
  "truthful env entries =
     (\<forall>repo sha v log. entries (repo, sha) = Some v \<longrightarrow>
        fst (Contains env Map.empty repo sha log) = (v, None))"

lemma stateless_revisionLoop:
  assumes "stateless env"
  shows "fst (revisionLoop env c pre target names log) =
         fst (revisionLoop env c pre target names log')"
proof (induction names arbitrary: log log')
  case Nil
  then show ?case by simp
next
  case (Cons b bs)
  have eq: "ContainsRevision env log c (pre @ b) target =
      ContainsRevision env log' c (pre @ b) target"
    using assms unfolding stateless_def by metis
  show ?case
  proof (cases "ContainsRevision env log' c (pre @ b) target")
    case (Inl e)
    with eq show ?thesis by simp
  next
    case (Inr ok)
    with eq Cons.IH[of "log @ [CallContainsRevision c (pre @ b) target]"
        "log' @ [CallContainsRevision c (pre @ b) target]"]
    show ?thesis by simp
  qed
qed

lemma stateless_checkImposterCommit:
  assumes "stateless env"
  shows "fst (checkImposterCommit env c target log) = fst (checkImposterCommit env c target log')"
proof -
  have lb: "ListBranches env log c = ListBranches env log' c"
    using assms unfolding stateless_def by metis
  show ?thesis
  proof (cases "ListBranches env log' c")
    case (Inl e)
    with lb show ?thesis by (simp add: checkImposterCommit_def)
  next
    case (Inr branches)
    obtain r1 l1 where r1: "revisionLoop env c ''refs/heads/'' target branches
        (log @ [CallListBranches c]) = (r1, l1)"
      by (cases "revisionLoop env c ''refs/heads/'' target branches (log @ [CallListBranches c])")
    obtain r1' l1' where r1': "revisionLoop env c ''refs/heads/'' target branches
        (log' @ [CallListBranches c]) = (r1', l1')"
      by (cases "revisionLoop env c ''refs/heads/'' target branches (log' @ [CallListBranches c])")
    have e1: "r1 = r1'"
      using stateless_revisionLoop[OF assms, of c "''refs/heads/''" target branches
          "log @ [CallListBranches c]" "log' @ [CallListBranches c]"] r1 r1' by simp
    show ?thesis
    proof (cases r1')
      case (Some r)
      with lb Inr r1 r1' e1 show ?thesis by (simp add: checkImposterCommit_def)
    next
      case None
      have lt: "ListTags env l1 c = ListTags env l1' c"
        using assms unfolding stateless_def by metis
      show ?thesis
      proof (cases "ListTags env l1' c")
        case (Inl e)
        with lb Inr r1 r1' e1 None lt show ?thesis by (simp add: checkImposterCommit_def)
      next
        case (Inr tags)
        note br = \<open>ListBranches env log' c = Inr branches\<close>
        obtain r2 l2 where r2: "revisionLoop env c ''refs/tags/'' target tags
            (l1 @ [CallListTags c]) = (r2, l2)"
          by (cases "revisionLoop env c ''refs/tags/'' target tags (l1 @ [CallListTags c])")
        obtain r2' l2' where r2': "revisionLoop env c ''refs/tags/'' target tags
            (l1' @ [CallListTags c]) = (r2', l2')"
          by (cases "revisionLoop env c ''refs/tags/'' target tags (l1' @ [CallListTags c])")
        have e2: "r2 = r2'"
          using stateless_revisionLoop[OF assms, of c "''refs/tags/''" target tags
              "l1 @ [CallListTags c]" "l1' @ [CallListTags c]"] r2 r2' by simp
        show ?thesis
          using lb br r1 r1' e1 None lt Inr r2 r2' e2
          by (simp add: checkImposterCommit_def split: option.splits)
      qed
    qed
  qed
qed

lemma stateless_Contains_miss:
  assumes "stateless env" and "entries (repo, sha) = None"
  shows "fst (Contains env entries repo sha log) = fst (Contains env Map.empty repo sha log')"
proof (cases "MakeGithubRepo env repo")
  case (Inl e)
  with assms(2) show ?thesis by (simp add: Contains_def)
next
  case (Inr gh)
  have nc: "NewClient env log gh = NewClient env log' gh"
    using assms(1) unfolding stateless_def by metis
  show ?thesis
  proof (cases "NewClient env log' gh")
    case (Inl e)
    with nc Inr assms(2) show ?thesis by (simp add: Contains_def)
  next
    case (Inr c)
    note gh = \<open>MakeGithubRepo env repo = Inr gh\<close>
    from stateless_checkImposterCommit[OF assms(1), of c sha "log @ [CallNewClient gh]"
        "log' @ [CallNewClient gh]"]
    show ?thesis
      using nc Inr gh assms(2) by (simp add: Contains_def case_prod_beta)
  qed
qed

lemma truthful_empty: "truthful env Map.empty"
  by (simp add: truthful_def)

lemma truthful_Contains:
  assumes "stateless env" and "truthful env entries"
    and "Contains env entries repo sha log = ((v, None), entries', log')"
  shows "truthful env entries'"
proof (cases "entries (repo, sha)")
  case (Some x)
  with assms(3) have "entries' = entries" by (simp add: Contains_def)
  with assms(2) show ?thesis by simp
next
  case None
  have upd: "entries' = entries((repo, sha) \<mapsto> v)"
    using assms(3) None by (auto simp: Contains_def split: sum.splits prod.splits)
  have fresh: "fst (Contains env Map.empty repo sha l) = (v, None)" for l
    using stateless_Contains_miss[of env entries repo sha log l] assms(1,3) None by simp
  show ?thesis
    unfolding truthful_def upd
  proof (intro allI impI)
    fix r s x l
    assume a: "(entries((repo, sha) \<mapsto> v)) (r, s) = Some x"
    show "fst (Contains env Map.empty r s l) = (x, None)"
    proof (cases "(r, s) = (repo, sha)")
      case True
      with a fresh[of l] show ?thesis by simp
    next
      case False
      with a have "entries (r, s) = Some x" by (simp split: if_splits)
      with assms(2) show ?thesis unfolding truthful_def by blast
    qed
  qed
qed

lemma truthful_imposterStep:
  assumes "stateless env" and "truthful env (cache w)"
    and "imposterStep env job path step w = (w', None)"
  shows "truthful env (cache w')"
proof (cases step)
  case None
  with assms(3) show ?thesis by (simp add: imposterStep_def)
next
  case (Some st)
  show ?thesis
  proof (cases "Exec st")
    case None
    with Some assms(2,3) show ?thesis by (auto simp: imposterStep_def)
  next
    case (Some e)
    note st = \<open>step = Some st\<close>
    show ?thesis
    proof (cases e)
      case (ExecRun run)
      with st Some assms(2,3) show ?thesis by (auto simp: imposterStep_def)
    next
      case (ExecAction uses inputs)
      show ?thesis
      proof (cases uses)
        case None
        with st Some ExecAction assms(3) show ?thesis by (simp add: imposterStep_def)
      next
        case (Some u)
        note ex = \<open>Exec st = Some e\<close>
        let ?s = "strings_Split (strings_TrimPrefix (Value u) ''actions://'') (CHR ''@'')"
        obtain ok r entries' log' where
          c: "Contains env (cache w) (?s ! 0) (?s ! 1) (calls w) = ((ok, r), entries', log')"
          by (cases "Contains env (cache w) (?s ! 0) (?s ! 1) (calls w)") auto
        from assms(3) have two: "length ?s = 2" and r: "r = None" and w': "cache w' = entries'"
          unfolding imposterStep_def using st ex ExecAction Some c
          by (auto simp: Let_def split: if_splits option.splits)
        from truthful_Contains[OF assms(1,2) c[unfolded r]] w' show ?thesis by simp
      qed
    qed
  qed
qed

lemma truthful_imposterSteps:
  assumes "stateless env"
  shows "truthful env (cache w) \<Longrightarrow> imposterSteps env job path steps w = (w', None)
    \<Longrightarrow> truthful env (cache w')"
proof (induction steps arbitrary: w)
  case Nil
  then show ?case by simp
next
  case (Cons x xs)
  obtain w1 r where x: "imposterStep env job path x w = (w1, r)"
    by (cases "imposterStep env job path x w")
  with Cons.prems(2) have r: "r = None" by (cases r) auto
  with x Cons.prems(2) have rest: "imposterSteps env job path xs w1 = (w', None)" by simp
  from truthful_imposterStep[OF assms Cons.prems(1) x[unfolded r]]
  have "truthful env (cache w1)" .
  from Cons.IH[OF this rest] show ?case .
qed

lemma truthful_imposterJobs:
  assumes "stateless env"
  shows "truthful env (cache w) \<Longrightarrow> imposterJobs env path jobs w = (w', None)
    \<Longrightarrow> truthful env (cache w')"
proof (induction jobs arbitrary: w)
  case Nil
  then show ?case by simp
next
  case (Cons x xs)
  show ?case
  proof (cases x)
    case None
    with Cons.prems(2) show ?thesis by simp
  next
    case (Some j)
    obtain w1 r where s: "imposterSteps env j path (Steps j) w = (w1, r)"
      by (cases "imposterSteps env j path (Steps j) w")
    with Cons.prems(2) Some have r: "r = None" by (cases r) auto
    with s Cons.prems(2) Some have rest: "imposterJobs env path xs w1 = (w', None)" by simp
    from truthful_imposterSteps[OF assms Cons.prems(1) s[unfolded r]]
    have "truthful env (cache w1)" .
    from Cons.IH[OF this rest] show ?thesis .
  qed
qed

text \<open>
  With a client that answers the calls about a repository, a truthful cache holds
  nothing for a pair of that repository or the right answer: the condition on the
  cache in the theorem above holds at every step a walk reaches.
\<close>

lemma truthful_entry:
  assumes "truthful env entries"
    and "MakeGithubRepo env repo = Inr gh"
    and "\<And>cs. NewClient env cs gh = Inr c"
    and "\<And>cs. ListBranches env cs c = Inr branches"
    and "\<And>cs. ListTags env cs c = Inr tags"
    and "\<And>cs base. ContainsRevision env cs c base sha = Inr (reach base)"
  shows "entries (repo, sha) = None \<or> entries (repo, sha) =
           Some ((\<exists>b\<in>set branches. reach (''refs/heads/'' @ b))
                  \<or> (\<exists>t\<in>set tags. reach (''refs/tags/'' @ t)))"
proof (cases "entries (repo, sha)")
  case None
  then show ?thesis by simp
next
  case (Some v)
  with assms(1) have "fst (Contains env Map.empty repo sha []) = (v, None)"
    unfolding truthful_def by blast
  moreover have "fst (Contains env Map.empty repo sha []) =
     ((\<exists>b\<in>set branches. reach (''refs/heads/'' @ b))
        \<or> (\<exists>t\<in>set tags. reach (''refs/tags/'' @ t)), None)"
    by (rule Contains_answers[OF assms(2-6)]) simp
  ultimately show ?thesis using Some by simp
qed

lemma walk_cache_truthful:
  assumes "stateless env"
    and "imposterJobs env path before \<lparr>cache = Map.empty, calls = log, Workflows = pdata\<rparr>
           = (w1, None)"
    and "imposterSteps env job path earlier w1 = (w, None)"
  shows "truthful env (cache w)"
proof -
  have "truthful env (cache \<lparr>cache = Map.empty, calls = log, Workflows = pdata\<rparr>)"
    by (simp add: truthful_empty)
  from truthful_imposterJobs[OF assms(1) this assms(2)] have "truthful env (cache w1)" .
  from truthful_imposterSteps[OF assms(1) this assms(3)] show ?thesis .
qed

text \<open>
  Two jobs that refer to the same revision, which is on no branch and no tag: two
  findings, and the remote calls of one lookup.
\<close>

definition twoJobs :: Workflow where
  "twoJobs =
     \<lparr>On = [''push''],
      Jobs = [Some \<lparr>ID = Some \<lparr>Value = ''build'', StrPos = None\<rparr>, Name = None,
                   Steps = [Some (pinnedStep ''acme/build-action@deadbeef'')]\<rparr>,
              Some \<lparr>ID = Some \<lparr>Value = ''test'', StrPos = None\<rparr>, Name = None,
                   Steps = [Some (pinnedStep ''acme/build-action@deadbeef'')]\<rparr>]\<rparr>"

lemma two_references_one_lookup:
  "validateImposterCommits exampleEnv twoJobs ''ci.yml'' ([], []) =
     (([\<lparr>Job = Some \<lparr>JobName = None, JobID = Some ''build''\<rparr>,
         Type = DangerousWorkflowImposterReference,
         File = \<lparr>Path = ''ci.yml'', FileType = FileTypeSource, Offset = 9,
                  Snippet = ''acme/build-action@deadbeef''\<rparr>\<rparr>,
        \<lparr>Job = Some \<lparr>JobName = None, JobID = Some ''test''\<rparr>,
         Type = DangerousWorkflowImposterReference,
         File = \<lparr>Path = ''ci.yml'', FileType = FileTypeSource, Offset = 9,
                  Snippet = ''acme/build-action@deadbeef''\<rparr>\<rparr>],
       [CallNewClient ''acme/build-action'', CallListBranches ''acme/build-action'',
        CallContainsRevision ''acme/build-action'' ''refs/heads/main'' ''deadbeef'',
        CallListTags ''acme/build-action'',
        CallContainsRevision ''acme/build-action'' ''refs/tags/v1'' ''deadbeef'']),
      None)"
  by code_simp

text \<open>A walk that ends without error has taken every step without error.\<close>

lemma imposterSteps_ok:
  assumes "imposterSteps env job path steps w = (w', None)" and "step \<in> set steps"
  shows "\<exists>w1 w2. imposterStep env job path step w1 = (w2, None)"
  using assms
proof (induction steps arbitrary: w)
  case Nil
  then show ?case by simp
next
  case (Cons x xs)
  obtain w1 r where x: "imposterStep env job path x w = (w1, r)"
    by (cases "imposterStep env job path x w")
  with Cons.prems(1) have r: "r = None" by (cases r) auto
  with x Cons.prems(1) have rest: "imposterSteps env job path xs w1 = (w', None)" by simp
  show ?case
  proof (cases "step = x")
    case True
    with x r show ?thesis by blast
  next
    case False
    with Cons.prems(2) have "step \<in> set xs" by simp
    from Cons.IH[OF rest this] show ?thesis .
  qed
qed

lemma imposterJobs_ok:
  assumes "imposterJobs env path jobs w = (w', None)" and "job \<in> set jobs"
  shows "\<exists>j. job = Some j \<and> (\<exists>w1 w2. imposterSteps env j path (Steps j) w1 = (w2, None))"
  using assms
proof (induction jobs arbitrary: w)
  case Nil
  then show ?case by simp
next
  case (Cons x xs)
  show ?case
  proof (cases x)
    case None
    with Cons.prems(1) show ?thesis by simp
  next
    case (Some j)
    obtain w1 r where x: "imposterSteps env j path (Steps j) w = (w1, r)"
      by (cases "imposterSteps env j path (Steps j) w")
    with Cons.prems(1) Some have r: "r = None" by (cases r) auto
    with x Cons.prems(1) Some have rest: "imposterJobs env path xs w1 = (w', None)" by simp
    show ?thesis
    proof (cases "job = x")
      case True
      with Some x r show ?thesis by blast
    next
      case False
      with Cons.prems(2) have "job \<in> set xs" by simp
      from Cons.IH[OF rest this] show ?thesis .
    qed
  qed
qed

lemma validateImposterCommits_ok:
  assumes "snd (validateImposterCommits env workflow path s0) = None"
    and "Some job \<in> set (Jobs workflow)" and "step \<in> set (Steps job)"
  shows "\<exists>w1 w2. imposterStep env job path step w1 = (w2, None)"
proof -
  let ?w0 = "\<lparr>cache = Map.empty, calls = snd s0, Workflows = fst s0\<rparr>"
  obtain w' r where j: "imposterJobs env path (Jobs workflow) ?w0 = (w', r)"
    by (cases "imposterJobs env path (Jobs workflow) ?w0")
  with assms(1) have "r = None" by (simp add: validateImposterCommits_def)
  with j have "imposterJobs env path (Jobs workflow) ?w0 = (w', None)" by simp
  from imposterJobs_ok[OF this assms(2)]
  obtain w1 w2 where "imposterSteps env job path (Steps job) w1 = (w2, None)" by auto
  from imposterSteps_ok[OF this assms(3)] show ?thesis .
qed

lemma validateImposterCommits_nil_job:
  assumes "None \<in> set (Jobs workflow)"
  shows "snd (validateImposterCommits env workflow path s0) \<noteq> None"
proof
  assume a: "snd (validateImposterCommits env workflow path s0) = None"
  let ?w0 = "\<lparr>cache = Map.empty, calls = snd s0, Workflows = fst s0\<rparr>"
  obtain w' r where j: "imposterJobs env path (Jobs workflow) ?w0 = (w', r)"
    by (cases "imposterJobs env path (Jobs workflow) ?w0")
  with a have "r = None" by (simp add: validateImposterCommits_def)
  with j have "imposterJobs env path (Jobs workflow) ?w0 = (w', None)" by simp
  from imposterJobs_ok[OF this assms] show False by simp
qed

lemma imposterStep_unexpected:
  assumes "Exec st = Some (ExecAction (Some u) inputs)"
    and "count_list (strings_TrimPrefix (Value u) ''actions://'') (CHR ''@'') \<noteq> 1"
  shows "imposterStep env job path (Some st) w =
     (w, Some (UnexpectedReference (strings_TrimPrefix (Value u) ''actions://'')))"
  unfolding imposterStep_def using assms
  by (simp add: Let_def length_strings_Split)

lemma imposterStep_lookup:
  assumes "Exec st = Some (ExecAction (Some u) inputs)"
    and "strings_TrimPrefix (Value u) ''actions://'' = repo @ ''@'' @ sha"
    and "CHR ''@'' \<notin> set repo" and "CHR ''@'' \<notin> set sha"
  shows "snd (imposterStep env job path (Some st) w) =
           snd (fst (Contains env (cache w) repo sha (calls w)))
       \<and> cache (fst (imposterStep env job path (Some st) w)) =
           fst (snd (Contains env (cache w) repo sha (calls w)))
       \<and> calls (fst (imposterStep env job path (Some st) w)) =
           snd (snd (Contains env (cache w) repo sha (calls w)))"
proof -
  have sp: "strings_Split (strings_TrimPrefix (Value u) ''actions://'') (CHR ''@'') = [repo, sha]"
    using strings_Split_one_sep[OF assms(3,4)] assms(2) by simp
  obtain ok r entries' log' where
    c: "Contains env (cache w) repo sha (calls w) = ((ok, r), entries', log')"
    by (cases "Contains env (cache w) repo sha (calls w)") auto
  show ?thesis
    unfolding imposterStep_def
    by (simp add: assms(1) sp c Let_def split: option.splits)
qed

lemma imposterSteps_append:
  "imposterSteps env job path (xs @ ys) w =
     (case imposterSteps env job path xs w of
        (w', Some e) \<Rightarrow> (w', Some e)
      | (w', None) \<Rightarrow> imposterSteps env job path ys w')"
  by (induction xs arbitrary: w) (auto split: prod.splits option.splits)

lemma imposterJobs_append:
  "imposterJobs env path (xs @ ys) w =
     (case imposterJobs env path xs w of
        (w', Some e) \<Rightarrow> (w', Some e)
      | (w', None) \<Rightarrow> imposterJobs env path ys w')"
proof (induction xs arbitrary: w)
  case Nil
  then show ?case by simp
next
  case (Cons x xs)
  then show ?case by (cases x) (auto split: prod.splits option.splits)
qed

text \<open>
  The walk gets to a step when the jobs visited before its job, and the steps before it
  in its job, have raised no error; an error of the step is then the error of the
  analysis, with the findings and the log as the step left them.
\<close>

lemma walk_reaches_step:
  assumes "Jobs workflow = before @ Some job # rest"
    and "Steps job = earlier @ step # later"
    and "imposterJobs env path before
           \<lparr>cache = Map.empty, calls = snd s0, Workflows = fst s0\<rparr> = (w1, None)"
    and "imposterSteps env job path earlier w1 = (w2, None)"
    and "imposterStep env job path step w2 = (w3, Some e)"
  shows "validateImposterCommits env workflow path s0 = ((Workflows w3, calls w3), Some e)"
proof -
  have "imposterSteps env job path (Steps job) w1 = (w3, Some e)"
    unfolding assms(2) imposterSteps_append by (simp add: assms(4,5))
  then have "imposterJobs env path (Some job # rest) w1 = (w3, Some e)" by simp
  then have "imposterJobs env path (Jobs workflow)
      \<lparr>cache = Map.empty, calls = snd s0, Workflows = fst s0\<rparr> = (w3, Some e)"
    unfolding assms(1) imposterJobs_append by (simp add: assms(3))
  then show ?thesis by (simp add: validateImposterCommits_def)
qed

lemma walk_reaches_nil_job:
  assumes "Jobs workflow = before @ None # rest"
    and "imposterJobs env path before
           \<lparr>cache = Map.empty, calls = snd s0, Workflows = fst s0\<rparr> = (w1, None)"
  shows "validateImposterCommits env workflow path s0 =
     ((Workflows w1, calls w1), Some NilPointerDereference)"
proof -
  have "imposterJobs env path (Jobs workflow)
      \<lparr>cache = Map.empty, calls = snd s0, Workflows = fst s0\<rparr> = (w1, Some NilPointerDereference)"
    unfolding assms(1) imposterJobs_append by (simp add: assms(2))
  then show ?thesis by (simp add: validateImposterCommits_def)
qed

text \<open>
  Claim C9. The reference without the prefix \<open>actions://\<close> is split at \<open>@\<close>. When
  it does not hold exactly one \<open>@\<close>, the step returns the error that names the
  reference, with the cache, the log and the findings unchanged, and the walk returns
  it at once, whatever steps follow: it is the error of the analysis when the walk gets
  to the step, and no walk over a workflow with such a step ends without error. When
  the reference holds exactly one \<open>@\<close>, the two parts are the repository and the
  revision of the lookup, and the error of the step is that of the lookup.
\<close>

theorem unexpected_reference_fails:
  assumes "Exec st = Some (ExecAction (Some u) inputs)"
  shows "(count_list (strings_TrimPrefix (Value u) ''actions://'') (CHR ''@'') \<noteq> 1 \<longrightarrow>
        imposterStep env job path (Some st) w =
          (w, Some (UnexpectedReference (strings_TrimPrefix (Value u) ''actions://'')))
        \<and> imposterSteps env job path (Some st # steps) w =
          (w, Some (UnexpectedReference (strings_TrimPrefix (Value u) ''actions://'')))
        \<and> (Jobs workflow = before @ Some job # rest
             \<and> Steps job = earlier @ Some st # later
             \<and> imposterJobs env path before
                  \<lparr>cache = Map.empty, calls = snd s0, Workflows = fst s0\<rparr> = (w1, None)
             \<and> imposterSteps env job path earlier w1 = (w2, None) \<longrightarrow>
             validateImposterCommits env workflow path s0 =
               ((Workflows w2, calls w2),
                Some (UnexpectedReference (strings_TrimPrefix (Value u) ''actions://''))))
        \<and> (Some job \<in> set (Jobs workflow) \<and> Some st \<in> set (Steps job) \<longrightarrow>
             snd (validateImposterCommits env workflow path s0) \<noteq> None))
    \<and> (strings_TrimPrefix (Value u) ''actions://'' = repo @ ''@'' @ sha
          \<and> CHR ''@'' \<notin> set repo \<and> CHR ''@'' \<notin> set sha \<longrightarrow>
        snd (imposterStep env job path (Some st) w) =
          snd (fst (Contains env (cache w) repo sha (calls w))))"
proof (intro conjI impI)
  assume n: "count_list (strings_TrimPrefix (Value u) ''actions://'') (CHR ''@'') \<noteq> 1"
  note bad = imposterStep_unexpected[OF assms n]
  show "imposterStep env job path (Some st) w =
      (w, Some (UnexpectedReference (strings_TrimPrefix (Value u) ''actions://'')))"
    by (rule bad)
  show "imposterSteps env job path (Some st # steps) w =
      (w, Some (UnexpectedReference (strings_TrimPrefix (Value u) ''actions://'')))"
    by (simp add: bad)
  show "validateImposterCommits env workflow path s0 =
      ((Workflows w2, calls w2),
       Some (UnexpectedReference (strings_TrimPrefix (Value u) ''actions://'')))"
    if "Jobs workflow = before @ Some job # rest
        \<and> Steps job = earlier @ Some st # later
        \<and> imposterJobs env path before
             \<lparr>cache = Map.empty, calls = snd s0, Workflows = fst s0\<rparr> = (w1, None)
        \<and> imposterSteps env job path earlier w1 = (w2, None)"
  proof -
    from that have j: "Jobs workflow = before @ Some job # rest"
      and t: "Steps job = earlier @ Some st # later"
      and ij: "imposterJobs env path before
             \<lparr>cache = Map.empty, calls = snd s0, Workflows = fst s0\<rparr> = (w1, None)"
      and it: "imposterSteps env job path earlier w1 = (w2, None)" by simp_all
    show ?thesis by (rule walk_reaches_step[OF j t ij it bad])
  qed
  show "snd (validateImposterCommits env workflow path s0) \<noteq> None"
    if "Some job \<in> set (Jobs workflow) \<and> Some st \<in> set (Steps job)"
  proof
    assume "snd (validateImposterCommits env workflow path s0) = None"
    from validateImposterCommits_ok[OF this] that
    have "\<exists>w1 w2. imposterStep env job path (Some st) w1 = (w2, None)" by blast
    then show False by (simp add: bad)
  qed
next
  assume "strings_TrimPrefix (Value u) ''actions://'' = repo @ ''@'' @ sha
          \<and> CHR ''@'' \<notin> set repo \<and> CHR ''@'' \<notin> set sha"
  then show "snd (imposterStep env job path (Some st) w) =
          snd (fst (Contains env (cache w) repo sha (calls w)))"
    using imposterStep_lookup[OF assms] by blast
qed

theorem unexpected_reference_fails_witness:
  "count_list (strings_TrimPrefix ''./.github/actions/setup'' ''actions://'') (CHR ''@'') = 0
   \<and> imposterStep exampleEnv exampleJob ''ci.yml''
        (Some (pinnedStep ''./.github/actions/setup'')) emptyWalk =
       (emptyWalk, Some (UnexpectedReference ''./.github/actions/setup''))
   \<and> count_list (strings_TrimPrefix ''actions://acme/build-action@v1@1234'' ''actions://'')
        (CHR ''@'') = 2
   \<and> imposterStep exampleEnv exampleJob ''ci.yml''
        (Some (pinnedStep ''actions://acme/build-action@v1@1234'')) emptyWalk =
       (emptyWalk, Some (UnexpectedReference ''acme/build-action@v1@1234''))"
proof -
  have e: "Exec (pinnedStep r) = Some (ExecAction (Some \<lparr>Value = r, StrPos = None\<rparr>) Map.empty)"
    for r by (simp add: pinnedStep_def)
  have t0: "strings_TrimPrefix ''./.github/actions/setup'' ''actions://''
      = ''./.github/actions/setup''"
    by (simp add: strings_TrimPrefix_def)
  have t2: "strings_TrimPrefix ''actions://acme/build-action@v1@1234'' ''actions://''
      = ''acme/build-action@v1@1234''"
    by (simp add: strings_TrimPrefix_def)
  have n0: "count_list ''./.github/actions/setup'' (CHR ''@'') = 0" by simp
  have n2: "count_list ''acme/build-action@v1@1234'' (CHR ''@'') = 2" by simp
  from unexpected_reference_fails[OF e, of "''./.github/actions/setup''"
      exampleEnv exampleJob "''ci.yml''" emptyWalk]
  have r0: "imposterStep exampleEnv exampleJob ''ci.yml''
        (Some (pinnedStep ''./.github/actions/setup'')) emptyWalk =
       (emptyWalk, Some (UnexpectedReference ''./.github/actions/setup''))"
    by (simp add: t0 n0)
  from unexpected_reference_fails[OF e, of "''actions://acme/build-action@v1@1234''"
      exampleEnv exampleJob "''ci.yml''" emptyWalk]
  have r2: "imposterStep exampleEnv exampleJob ''ci.yml''
        (Some (pinnedStep ''actions://acme/build-action@v1@1234'')) emptyWalk =
       (emptyWalk, Some (UnexpectedReference ''acme/build-action@v1@1234''))"
    by (simp add: t2 n2)
  from r0 r2 show ?thesis by (simp add: t0 t2)
qed

lemma imposterStep_nil_uses:
  "Exec st = Some (ExecAction None inputs) \<Longrightarrow>
     imposterStep env job path (Some st) w = (w, Some NilPointerDereference)"
  by (simp add: imposterStep_def)

lemma checkoutJobs_nil: "checkoutJobs env path (None # jobs) pdata = checkoutJobs env path jobs pdata"
  by (simp add: checkJobForUntrustedCodeCheckout_def)

lemma checkoutStep_nil_uses:
  "Exec st = Some (ExecAction None inputs) \<Longrightarrow> checkoutStep env job path (Some st) pdata = pdata"
  by (simp add: checkoutStep_def)

lemma scriptStep_action:
  "Exec st = Some (ExecAction uses inputs) \<Longrightarrow> scriptStep env job path (Some st) pdata = (pdata, None)"
  by (simp add: scriptStep_def)

lemma scriptVariables_no_panic: "snd (scriptVariables script) \<noteq> Some NilPointerDereference"
proof (induction script rule: scriptVariables.induct)
  case (1 script)
  show ?case
  proof (cases "strings_Index script ''${{''")
    case None
    then show ?thesis by (subst scriptVariables.simps) simp
  next
    case (Some s)
    show ?thesis
    proof (cases "strings_Index (drop s script) ''}}''")
      case None
      with Some show ?thesis by (subst scriptVariables.simps) simp
    next
      case (Some e)
      note s = \<open>strings_Index script ''${{'' = Some s\<close>
      show ?thesis
      proof (cases "slice script (s + 3) (s + e)")
        case None
        with s Some show ?thesis by (subst scriptVariables.simps) simp
      next
        case (Some v)
        note e = \<open>strings_Index (drop s script) ''}}'' = Some e\<close>
        from "1.IH"[OF s e Some] show ?thesis
          by (subst scriptVariables.simps) (simp add: s e Some case_prod_beta)
      qed
    qed
  qed
qed

lemma scriptStep_no_panic: "snd (scriptStep env job path step pdata) \<noteq> Some NilPointerDereference"
  unfolding scriptStep_def
  by (auto simp: checkVariablesInScript_scriptVariables scriptVariables_no_panic
      split: option.splits Exec.splits)

lemma scriptSteps_no_panic: "snd (scriptSteps env job path steps pdata) \<noteq> Some NilPointerDereference"
proof (induction steps arbitrary: pdata)
  case Nil
  then show ?case by simp
next
  case (Cons x xs)
  obtain p r where x: "scriptStep env job path x pdata = (p, r)"
    by (cases "scriptStep env job path x pdata")
  show ?case
  proof (cases r)
    case None
    with x Cons.IH[of p] show ?thesis by simp
  next
    case (Some e)
    with x scriptStep_no_panic[of env job path x pdata] show ?thesis by simp
  qed
qed

lemma scriptJobs_no_panic: "snd (scriptJobs env path jobs pdata) \<noteq> Some NilPointerDereference"
proof (induction jobs arbitrary: pdata)
  case Nil
  then show ?case by simp
next
  case (Cons x xs)
  show ?case
  proof (cases x)
    case None
    with Cons.IH[of pdata] show ?thesis by simp
  next
    case (Some j)
    obtain p r where s: "scriptSteps env j path (Steps j) pdata = (p, r)"
      by (cases "scriptSteps env j path (Steps j) pdata")
    show ?thesis
    proof (cases r)
      case None
      with s Some Cons.IH[of p] show ?thesis by simp
    next
      case (Some e)
      with s \<open>x = Some j\<close> scriptSteps_no_panic[of env j path "Steps j" pdata]
      show ?thesis by simp
    qed
  qed
qed

lemma checkoutJobs_skip_nil:
  "checkoutJobs env path (filter (\<lambda>j. j \<noteq> None) jobs) pdata = checkoutJobs env path jobs pdata"
proof -
  have "concat (map (jobCheckoutFindings env path) (filter (\<lambda>j. j \<noteq> None) jobs)) =
      concat (map (jobCheckoutFindings env path) jobs)"
    by (induction jobs) (auto simp: jobCheckoutFindings_def)
  then show ?thesis by (simp add: checkoutJobs_findings)
qed

lemma scriptJobs_skip_nil:
  "scriptJobs env path (filter (\<lambda>j. j \<noteq> None) jobs) pdata = scriptJobs env path jobs pdata"
proof (induction jobs arbitrary: pdata)
  case Nil
  then show ?case by simp
next
  case (Cons x xs)
  then show ?case by (cases x) (simp_all split: prod.splits option.splits)
qed

text \<open>
  Claim C10. The walk of the imposter check dereferences a nil job and the nil
  \<open>Uses\<close> of an action step: it ends there with the panic, which is the result of
  the analysis when the walk gets to the job or the step, and no walk over a workflow
  with such a job or step ends without error. The other two checks skip them: they
  give the same result as on the workflow without its nil jobs, the step is passed
  over, and neither check ever ends with that panic.
\<close>

theorem imposter_walk_nil_dereference:
  "imposterJobs env path (None # jobs) w = (w, Some NilPointerDereference)
   \<and> (Jobs workflow = before @ None # rest
        \<and> imposterJobs env path before
             \<lparr>cache = Map.empty, calls = snd s0, Workflows = fst s0\<rparr> = (w1, None) \<longrightarrow>
        validateImposterCommits env workflow path s0 =
          ((Workflows w1, calls w1), Some NilPointerDereference))
   \<and> (None \<in> set (Jobs workflow) \<longrightarrow>
        snd (validateImposterCommits env workflow path s0) \<noteq> None)
   \<and> (Exec st = Some (ExecAction None inputs) \<longrightarrow>
        imposterStep env job path (Some st) w = (w, Some NilPointerDereference)
        \<and> imposterSteps env job path (Some st # steps) w = (w, Some NilPointerDereference)
        \<and> (Jobs workflow = before @ Some job # rest
             \<and> Steps job = earlier @ Some st # later
             \<and> imposterJobs env path before
                  \<lparr>cache = Map.empty, calls = snd s0, Workflows = fst s0\<rparr> = (w1, None)
             \<and> imposterSteps env job path earlier w1 = (w2, None) \<longrightarrow>
             validateImposterCommits env workflow path s0 =
               ((Workflows w2, calls w2), Some NilPointerDereference))
        \<and> (Some job \<in> set (Jobs workflow) \<and> Some st \<in> set (Steps job) \<longrightarrow>
             snd (validateImposterCommits env workflow path s0) \<noteq> None)
        \<and> checkoutStep env job path (Some st) pdata = pdata
        \<and> scriptStep env job path (Some st) pdata = (pdata, None))
   \<and> validateUntrustedCodeCheckout env workflow path pdata =
       validateUntrustedCodeCheckout env
         (workflow\<lparr>Jobs := filter (\<lambda>j. j \<noteq> None) (Jobs workflow)\<rparr>) path pdata
   \<and> validateScriptInjection env workflow path pdata =
       validateScriptInjection env
         (workflow\<lparr>Jobs := filter (\<lambda>j. j \<noteq> None) (Jobs workflow)\<rparr>) path pdata
   \<and> snd (validateUntrustedCodeCheckout env workflow path pdata) = None
   \<and> snd (validateScriptInjection env workflow path pdata) \<noteq> Some NilPointerDereference"
proof -
  have a: "snd (validateUntrustedCodeCheckout env workflow path pdata) = None"
    by (simp add: validateUntrustedCodeCheckout_def checkoutJobs_findings)
  have b: "snd (validateScriptInjection env workflow path pdata) \<noteq> Some NilPointerDereference"
    by (simp add: validateScriptInjection_def scriptJobs_no_panic)
  have c: "validateUntrustedCodeCheckout env workflow path pdata =
       validateUntrustedCodeCheckout env
         (workflow\<lparr>Jobs := filter (\<lambda>j. j \<noteq> None) (Jobs workflow)\<rparr>) path pdata"
    by (simp add: validateUntrustedCodeCheckout_def usesEventTrigger_def checkoutJobs_skip_nil
        del: not_None_eq)
  have d: "validateScriptInjection env workflow path pdata =
       validateScriptInjection env
         (workflow\<lparr>Jobs := filter (\<lambda>j. j \<noteq> None) (Jobs workflow)\<rparr>) path pdata"
    by (simp add: validateScriptInjection_def scriptJobs_skip_nil del: not_None_eq)
  have e: "snd (validateImposterCommits env workflow path s0) \<noteq> None"
    if "None \<in> set (Jobs workflow)"
    using that by (rule validateImposterCommits_nil_job)
  have f: "snd (validateImposterCommits env workflow path s0) \<noteq> None"
    if "Exec st = Some (ExecAction None inputs)"
      "Some job \<in> set (Jobs workflow) \<and> Some st \<in> set (Steps job)"
  proof
    assume "snd (validateImposterCommits env workflow path s0) = None"
    from validateImposterCommits_ok[OF this] that(2)
    have "\<exists>w1 w2. imposterStep env job path (Some st) w1 = (w2, None)" by blast
    then show False by (simp add: imposterStep_nil_uses[OF that(1)])
  qed
  have g: "validateImposterCommits env workflow path s0 =
          ((Workflows w1, calls w1), Some NilPointerDereference)"
    if "Jobs workflow = before @ None # rest
        \<and> imposterJobs env path before
             \<lparr>cache = Map.empty, calls = snd s0, Workflows = fst s0\<rparr> = (w1, None)"
  proof -
    from that have j: "Jobs workflow = before @ None # rest"
      and ij: "imposterJobs env path before
             \<lparr>cache = Map.empty, calls = snd s0, Workflows = fst s0\<rparr> = (w1, None)"
      by simp_all
    show ?thesis by (rule walk_reaches_nil_job[OF j ij])
  qed
  have h: "validateImposterCommits env workflow path s0 =
               ((Workflows w2, calls w2), Some NilPointerDereference)"
    if "Exec st = Some (ExecAction None inputs)"
       "Jobs workflow = before @ Some job # rest
        \<and> Steps job = earlier @ Some st # later
        \<and> imposterJobs env path before
             \<lparr>cache = Map.empty, calls = snd s0, Workflows = fst s0\<rparr> = (w1, None)
        \<and> imposterSteps env job path earlier w1 = (w2, None)"
  proof -
    from that(2) have j: "Jobs workflow = before @ Some job # rest"
      and t: "Steps job = earlier @ Some st # later"
      and ij: "imposterJobs env path before
             \<lparr>cache = Map.empty, calls = snd s0, Workflows = fst s0\<rparr> = (w1, None)"
      and it: "imposterSteps env job path earlier w1 = (w2, None)" by simp_all
    show ?thesis by (rule walk_reaches_step[OF j t ij it imposterStep_nil_uses[OF that(1)]])
  qed
  show ?thesis
    using a b c[symmetric] d[symmetric] e f g h
    by (simp add: imposterStep_nil_uses checkoutStep_nil_uses scriptStep_action)
qed

definition nilUsesStep :: Step where
  "nilUsesStep = \<lparr>Exec = Some (ExecAction None Map.empty), Pos = Some (4, 7)\<rparr>"

definition nilJobWorkflow :: Workflow where
  "nilJobWorkflow = \<lparr>On = [''pull_request_target''], Jobs = [None]\<rparr>"

theorem imposter_walk_nil_dereference_witness:
  "Jobs nilJobWorkflow = [] @ None # []
   \<and> validateImposterCommits exampleEnv nilJobWorkflow ''ci.yml'' ([], []) =
       (([], []), Some NilPointerDereference)
   \<and> validateUntrustedCodeCheckout exampleEnv nilJobWorkflow ''ci.yml'' [] = ([], None)
   \<and> validateScriptInjection exampleEnv nilJobWorkflow ''ci.yml'' [] = ([], None)
   \<and> Exec nilUsesStep = Some (ExecAction None Map.empty)
   \<and> imposterStep exampleEnv exampleJob ''ci.yml'' (Some nilUsesStep) emptyWalk =
       (emptyWalk, Some NilPointerDereference)
   \<and> checkoutStep exampleEnv exampleJob ''ci.yml'' (Some nilUsesStep) [] = []
   \<and> scriptStep exampleEnv exampleJob ''ci.yml'' (Some nilUsesStep) [] = ([], None)"
proof -
  let ?start = "\<lparr>cache = Map.empty, calls = snd ([] :: DangerousWorkflow list, [] :: call list),
      Workflows = fst ([] :: DangerousWorkflow list, [] :: call list)\<rparr>"
  have n: "Jobs nilJobWorkflow = [] @ None # []" by (simp add: nilJobWorkflow_def)
  have b: "imposterJobs exampleEnv ''ci.yml'' [] ?start = (?start, None)" by simp
  have x: "Exec nilUsesStep = Some (ExecAction None Map.empty)" by (simp add: nilUsesStep_def)
  note t = imposter_walk_nil_dereference[where env = exampleEnv and path = "''ci.yml''" and workflow = nilJobWorkflow
      and before = "[]" and rest = "[]" and ?s0.0 = "([], [])" and ?w1.0 = ?start
      and st = nilUsesStep and inputs = Map.empty and job = exampleJob and w = emptyWalk
      and pdata = "[]" and steps = "[]"]
  from t n b have v: "validateImposterCommits exampleEnv nilJobWorkflow ''ci.yml'' ([], []) =
       (([], []), Some NilPointerDereference)"
    by simp
  have u: "validateUntrustedCodeCheckout exampleEnv nilJobWorkflow ''ci.yml'' [] = ([], None)"
    by code_simp
  have s: "validateScriptInjection exampleEnv nilJobWorkflow ''ci.yml'' [] = ([], None)"
    by code_simp
  from t x
  have "imposterStep exampleEnv exampleJob ''ci.yml'' (Some nilUsesStep) emptyWalk =
       (emptyWalk, Some NilPointerDereference)
   \<and> checkoutStep exampleEnv exampleJob ''ci.yml'' (Some nilUsesStep) [] = []
   \<and> scriptStep exampleEnv exampleJob ''ci.yml'' (Some nilUsesStep) [] = ([], None)"
    by blast
  with n x v u s show ?thesis by blast
qed

section \<open>The order of the findings\<close>



































end
